theory Spec2Isabelle
  imports Complex_Main "HOL-Library.Sublist"
begin

section \<open>Python values used by the logger\<close>

text \<open>
  The model follows \<^verbatim>\<open>src/linux/datalogger.py\<close> (the mac and windows loggers have the
  same method bodies and differ in the window length only) and, for the statistics,
  \<^verbatim>\<open>src/pi/datalogger.py\<close>.

  A Python \<^verbatim>\<open>str\<close> is a \<open>string\<close>; the serial reader decodes with
  \<^verbatim>\<open>decode('ascii', errors='ignore')\<close>, so every character the parser meets is ASCII.
  A \<^verbatim>\<open>dict\<close> keeps its keys in insertion order and that order decides the column
  order, so it is an association list updated in place. A Python \<^verbatim>\<open>float\<close> is a
  \<open>real\<close>: the arithmetic of the statistics is exact, and infinities and NaN are not
  represented. A second model of the statistics, further down, rounds every operation
  to double precision.

  A procedure that mutates an object and may raise returns the object as it is when
  control leaves the procedure, together with the exception that left it, if any.
\<close>

datatype py_error = IndexError | ValueError | ZeroDivisionError

datatype pyval = PyNone | PyBool bool

fun truthy :: "pyval \<Rightarrow> bool" where
  "truthy PyNone = False"
| "truthy (PyBool b) = b"

type_synonym dict = "(string \<times> string) list"

text \<open>\<^verbatim>\<open>d[k] = v\<close>: an existing key keeps its position, a new key goes last.\<close>

fun dict_set :: "string \<Rightarrow> string \<Rightarrow> dict \<Rightarrow> dict" where
  "dict_set k v [] = [(k, v)]"
| "dict_set k v ((k', v') # d) =
     (if k' = k then (k, v) # d else (k', v') # dict_set k v d)"

text \<open>\<^verbatim>\<open>d.get(k, default)\<close>.\<close>

definition dict_get :: "dict \<Rightarrow> string \<Rightarrow> string \<Rightarrow> string" where
  "dict_get d k dflt = (case map_of d k of Some v \<Rightarrow> v | None \<Rightarrow> dflt)"

definition keys :: "dict \<Rightarrow> string list" where
  "keys d = map fst d"

text \<open>\<^verbatim>\<open>xs[i]\<close> for a non-negative index.\<close>

definition py_index :: "'a list \<Rightarrow> nat \<Rightarrow> py_error + 'a" where
  "py_index xs i = (if i < length xs then Inr (xs ! i) else Inl IndexError)"

subsection \<open>String methods\<close>

text \<open>
  \<^verbatim>\<open>str.isspace\<close> on the characters below 256: tab, line feed, vertical tab, form
  feed, carriage return, the four separators 28 to 31, space, and 133 and 160.
\<close>

definition is_space :: "char \<Rightarrow> bool" where
  "is_space c = (let n = (of_char c :: nat) in
     (9 \<le> n \<and> n \<le> 13) \<or> (28 \<le> n \<and> n \<le> 32) \<or> n = 133 \<or> n = 160)"

text \<open>\<^verbatim>\<open>s.strip()\<close>\<close>

definition strip :: "string \<Rightarrow> string" where
  "strip s = rev (dropWhile is_space (rev (dropWhile is_space s)))"

text \<open>\<^verbatim>\<open>s.split(c)\<close> for a one-character separator: never an empty list.\<close>

fun split_sep :: "char \<Rightarrow> string \<Rightarrow> string list" where
  "split_sep c [] = [[]]"
| "split_sep c (x # xs) =
     (if x = c then [] # split_sep c xs
      else (case split_sep c xs of w # ws \<Rightarrow> (x # w) # ws | [] \<Rightarrow> [[x]]))"

text \<open>\<^verbatim>\<open>s.split(c, 1)\<close>: cut at the first separator only.\<close>

definition split_first :: "char \<Rightarrow> string \<Rightarrow> string list" where
  "split_first c s =
     (if c \<in> set s then [takeWhile (\<lambda>x. x \<noteq> c) s, tl (dropWhile (\<lambda>x. x \<noteq> c) s)]
      else [s])"

text \<open>
  \<^verbatim>\<open>s.split()\<close>: the maximal runs of non-whitespace characters. The first argument is
  the run being read.
\<close>

fun split_ws_from :: "string \<Rightarrow> string \<Rightarrow> string list" where
  "split_ws_from cur [] = (if cur = [] then [] else [cur])"
| "split_ws_from cur (x # xs) =
     (if is_space x then (if cur = [] then split_ws_from [] xs else cur # split_ws_from [] xs)
      else split_ws_from (cur @ [x]) xs)"

definition split_ws :: "string \<Rightarrow> string list" where
  "split_ws s = split_ws_from [] s"

text \<open>\<^verbatim>\<open>sep.join(xs)\<close>\<close>

fun join :: "string \<Rightarrow> string list \<Rightarrow> string" where
  "join sep [] = []"
| "join sep [x] = x"
| "join sep (x # y # ys) = x @ sep @ join sep (y # ys)"

text \<open>\<^verbatim>\<open>range(0, stop, 2)\<close>\<close>

definition range_step2 :: "int \<Rightarrow> nat list" where
  "range_step2 stop = filter even [0 ..< nat stop]"

section \<open>parse\_data\_line\<close>

text \<open>
  The loop over the comma-separated pairs. \<^verbatim>\<open>key, value = parts\<close> raises ValueError
  unless \<open>parts\<close> has two elements.
\<close>

fun comma_loop :: "string list \<Rightarrow> dict \<Rightarrow> dict \<times> py_error option" where
  "comma_loop [] parsed = (parsed, None)"
| "comma_loop (pair0 # pairs) parsed =
     (let pair = strip pair0 in
      if CHR '' '' \<in> set pair then
        (let parts = split_first (CHR '' '') pair in
         if length parts = 2 then
           (case parts of
              [key, value] \<Rightarrow> comma_loop pairs (dict_set (strip key) (strip value) parsed)
            | _ \<Rightarrow> (parsed, Some ValueError))
         else comma_loop pairs parsed)
      else comma_loop pairs parsed)"

text \<open>The loop \<^verbatim>\<open>for i in range(0, len(parts)-1, 2)\<close> of the space-separated format.\<close>

fun pair_loop :: "string list \<Rightarrow> nat list \<Rightarrow> dict \<Rightarrow> dict \<times> py_error option" where
  "pair_loop parts [] parsed = (parsed, None)"
| "pair_loop parts (i # is) parsed =
     (if i + 1 < length parts then
        (case (py_index parts i, py_index parts (i + 1)) of
           (Inr k, Inr v) \<Rightarrow> pair_loop parts is (dict_set k v parsed)
         | _ \<Rightarrow> (parsed, Some IndexError))
      else pair_loop parts is parsed)"

text \<open>
  The body of the \<^verbatim>\<open>try\<close>: the dictionary built so far and the exception that ended
  the body, if one did.
\<close>

definition parse_try :: "string \<Rightarrow> dict \<times> py_error option" where
  "parse_try line =
     (if CHR '','' \<in> set line then comma_loop (split_sep (CHR '','') (strip line)) []
      else (let parts = split_ws (strip line)
            in pair_loop parts (range_step2 (int (length parts) - 1)) []))"

text \<open>\<^verbatim>\<open>except Exception: pass\<close>, then \<^verbatim>\<open>return parsed\<close>.\<close>

definition parse_data_line :: "string \<Rightarrow> dict" where
  "parse_data_line line = fst (parse_try line)"

section \<open>The logger state\<close>

text \<open>
  \<^verbatim>\<open>Statistics\<close>, the dataclass. Its \<^verbatim>\<open>values\<close> field, \<open>stat_values\<close> here, is a
  \<^verbatim>\<open>deque(maxlen=K)\<close>, with \<open>K = 150\<close> on linux, \<open>100\<close> on mac and \<open>200\<close> on
  windows; \<open>K\<close> is a parameter of the model.
\<close>

record Statistics =
  min_val :: real
  max_val :: real
  mean_val :: real
  current_val :: real
  std_dev :: real
  count :: int
  stat_values :: "real list"

definition Statistics_new :: Statistics where
  "Statistics_new = \<lparr>min_val = 0, max_val = 0, mean_val = 0, current_val = 0, std_dev = 0,
     count = 0, stat_values = []\<rparr>"

definition linux_maxlen :: nat where
  "linux_maxlen = 150"

definition mac_maxlen :: nat where
  "mac_maxlen = 100"

definition windows_maxlen :: nat where
  "windows_maxlen = 200"

text \<open>\<^verbatim>\<open>deque.append\<close> on a deque of maximal length \<open>K\<close>: the oldest items fall out.\<close>

definition deque_append :: "nat \<Rightarrow> 'a list \<Rightarrow> 'a \<Rightarrow> 'a list" where
  "deque_append K xs x = (let ys = xs @ [x] in drop (length ys - K) ys)"

text \<open>
  A line of the data log remembers which statement wrote it: the header write of
  \<^verbatim>\<open>update_csv_columns\<close> or the row write of \<^verbatim>\<open>write_csv_row\<close>. The text is the
  line without its newline.
\<close>

datatype log_line = Header string | Row string

fun is_header :: "log_line \<Rightarrow> bool" where
  "is_header (Header h) = True"
| "is_header (Row r) = False"

text \<open>
  The fields of \<^verbatim>\<open>TrisonicaDataLoggerLinux\<close> that the pipeline reads and writes.
  The display buffers (\<^verbatim>\<open>data_points\<close>, \<^verbatim>\<open>viz_data\<close>) have no part in it.
\<close>

record logger =
  csv_columns :: "string list"
  csv_headers_written :: bool
  log_file :: "log_line list"
  stats :: "string \<rightharpoonup> Statistics"

definition logger_init :: logger where
  "logger_init = \<lparr>csv_columns = [''timestamp''], csv_headers_written = False,
     log_file = [], stats = Map.empty\<rparr>"

section \<open>update\_csv\_columns and write\_csv\_row\<close>

text \<open>The loop over \<^verbatim>\<open>parsed_data.keys()\<close>, on the column list and the local flag.\<close>

fun add_columns :: "string list \<Rightarrow> string list \<times> bool \<Rightarrow> string list \<times> bool" where
  "add_columns [] (cols, new_columns) = (cols, new_columns)"
| "add_columns (key # ks) (cols, new_columns) =
     (if key \<notin> set cols then add_columns ks (cols @ [key], True)
      else add_columns ks (cols, new_columns))"

text \<open>
  The method has no \<^verbatim>\<open>return\<close> statement: its value is \<^verbatim>\<open>None\<close>, and the flag
  \<^verbatim>\<open>new_columns\<close> is not read after the loop.
\<close>

definition update_csv_columns :: "dict \<Rightarrow> logger \<Rightarrow> pyval \<times> logger" where
  "update_csv_columns parsed_data s =
     (let (cols, new_columns) = add_columns (keys parsed_data) (csv_columns s, False);
          s1 = s\<lparr>csv_columns := cols\<rparr>;
          s2 = (if \<not> csv_headers_written s1
                then s1\<lparr>log_file := log_file s1 @ [Header (join '','' (csv_columns s1))],
                        csv_headers_written := True\<rparr>
                else s1)
      in (PyNone, s2))"

text \<open>The time stamp is given by its \<^verbatim>\<open>isoformat()\<close> text.\<close>

definition row_values :: "string \<Rightarrow> dict \<Rightarrow> string list \<Rightarrow> string list" where
  "row_values timestamp parsed_data cols =
     map (\<lambda>column. if column = ''timestamp'' then timestamp
                    else dict_get parsed_data column []) cols"

definition write_csv_row :: "string \<Rightarrow> dict \<Rightarrow> logger \<Rightarrow> logger" where
  "write_csv_row timestamp parsed_data s =
     s\<lparr>log_file := log_file s @ [Row (join '','' (row_values timestamp parsed_data (csv_columns s)))]\<rparr>"

section \<open>calculate\_statistics\<close>

text \<open>
  The update of one \<^verbatim>\<open>Statistics\<close> object, in exact arithmetic. The division by
  \<^verbatim>\<open>len(stat.values)\<close> raises ZeroDivisionError on an empty deque;
  \<^verbatim>\<open>variance ** 0.5\<close> is the square root of a non-negative number. A real number has
  no largest value, so the OverflowError that \<^verbatim>\<open>** 2\<close> raises on a float whose square
  is out of range has no counterpart here: the theorems on this definition are about
  the values it computes, not about which exceptions the arithmetic can raise.
\<close>

definition stat_update :: "nat \<Rightarrow> real \<Rightarrow> Statistics \<Rightarrow> Statistics \<times> py_error option" where
  "stat_update K v stat0 =
     (let stat = stat0\<lparr>current_val := v, count := count stat0 + 1,
                       stat_values := deque_append K (stat_values stat0) v\<rparr>
      in if count stat = 1 then
           (stat\<lparr>min_val := v, max_val := v, mean_val := v, std_dev := 0\<rparr>, None)
         else
           (let stat1 = stat\<lparr>min_val := min (min_val stat) v, max_val := max (max_val stat) v\<rparr>;
                n = length (stat_values stat1)
            in if n = 0 then (stat1, Some ZeroDivisionError)
               else
                 (let stat2 = stat1\<lparr>mean_val := sum_list (stat_values stat1) / real n\<rparr>
                  in if n > 1 then
                       (let variance =
                              sum_list (map (\<lambda>x. (x - mean_val stat2) ^ 2) (stat_values stat2))
                                / real n
                        in (stat2\<lparr>std_dev := sqrt variance\<rparr>, None))
                     else (stat2, None))))"

definition calculate_statistics ::
  "nat \<Rightarrow> string \<Rightarrow> real \<Rightarrow> (string \<rightharpoonup> Statistics) \<Rightarrow> (string \<rightharpoonup> Statistics) \<times> py_error option" where
  "calculate_statistics K key v st =
     (let stat0 = (case st key of None \<Rightarrow> Statistics_new | Some stat \<Rightarrow> stat);
          (stat, e) = stat_update K v stat0
      in (st(key \<mapsto> stat), e))"


section \<open>read\_serial\_data\<close>

text \<open>
  \<^verbatim>\<open>float(value_str)\<close> is a parameter \<open>pyfloat\<close>: \<open>None\<close> where Python raises
  ValueError. \<^verbatim>\<open>except ValueError: pass\<close> goes on with the next item; any other
  exception leaves the loop.
\<close>

fun stats_loop ::
  "(string \<Rightarrow> real option) \<Rightarrow> nat \<Rightarrow> dict \<Rightarrow> (string \<rightharpoonup> Statistics)
     \<Rightarrow> (string \<rightharpoonup> Statistics) \<times> py_error option" where
  "stats_loop pyfloat K [] st = (st, None)"
| "stats_loop pyfloat K ((key, value_str) # items) st =
     (case pyfloat value_str of
        None \<Rightarrow> stats_loop pyfloat K items st
      | Some v \<Rightarrow>
          (case calculate_statistics K key v st of
             (st', None) \<Rightarrow> stats_loop pyfloat K items st'
           | (st', Some e) \<Rightarrow>
               if e = ValueError then stats_loop pyfloat K items st' else (st', Some e)))"

text \<open>\<^verbatim>\<open>bytes.decode('ascii', errors='ignore')\<close>\<close>

definition decode_ascii :: "string \<Rightarrow> string" where
  "decode_ascii bs = filter (\<lambda>c. (of_char c :: nat) < 128) bs"

text \<open>
  One call of \<^verbatim>\<open>read_serial_data\<close> on an open port: \<open>raw\<close> is what \<^verbatim>\<open>readline()\<close>
  returned and \<open>timestamp\<close> the text of \<^verbatim>\<open>datetime.now()\<close>. The result is the logger
  afterwards and the exception that the outer \<^verbatim>\<open>except Exception\<close> caught, if any.
\<close>

definition read_serial_data ::
  "(string \<Rightarrow> real option) \<Rightarrow> nat \<Rightarrow> string \<Rightarrow> string \<Rightarrow> logger \<Rightarrow> logger \<times> py_error option" where
  "read_serial_data pyfloat K timestamp raw s =
     (let line = strip (decode_ascii raw) in
      if line = [] then (s, None)
      else
        (let parsed = parse_data_line line;
             s1 = snd (update_csv_columns parsed s);
             s2 = write_csv_row timestamp parsed s1;
             (st, e) = stats_loop pyfloat K parsed (stats s2)
         in (s2\<lparr>stats := st\<rparr>, e)))"

text \<open>The loop of \<^verbatim>\<open>run\<close> over the lines that arrive, each with its time stamp.\<close>

fun session ::
  "(string \<Rightarrow> real option) \<Rightarrow> nat \<Rightarrow> (string \<times> string) list \<Rightarrow> logger \<Rightarrow> logger" where
  "session pyfloat K [] s = s"
| "session pyfloat K ((timestamp, raw) # rest) s =
     session pyfloat K rest (fst (read_serial_data pyfloat K timestamp raw s))"

section \<open>The statistics of the Raspberry Pi logger\<close>

text \<open>
  \<^verbatim>\<open>update_statistics\<close> of \<^verbatim>\<open>src/pi/datalogger.py\<close> keeps a dictionary per
  parameter, with a \<^verbatim>\<open>deque(maxlen=100)\<close>; \<^verbatim>\<open>save_statistics\<close> derives the mean and
  the standard deviation when it writes.
\<close>

record pi_stats =
  pi_min :: real
  pi_max :: real
  pi_sum :: real
  pi_count :: int
  pi_values :: "real list"

definition pi_maxlen :: nat where
  "pi_maxlen = 100"



text \<open>
  The mean and the standard deviation that \<^verbatim>\<open>save_statistics\<close> writes for one
  entry; an entry with \<^verbatim>\<open>count == 0\<close> is skipped.
\<close>

definition pi_mean :: "pi_stats \<Rightarrow> real option" where
  "pi_mean stats0 = (if pi_count stats0 = 0 then None
                     else Some (pi_sum stats0 / real_of_int (pi_count stats0)))"

definition pi_std_dev :: "pi_stats \<Rightarrow> real option" where
  "pi_std_dev stats0 =
     (case pi_mean stats0 of
        None \<Rightarrow> None
      | Some mean \<Rightarrow>
          (let vals = pi_values stats0 in
           if length vals > 1 then
             Some (sqrt (sum_list (map (\<lambda>x. (x - mean) ^ 2) vals) / real (length vals)))
           else Some 0))"

text \<open>The test \<^verbatim>\<open>if not line\<close> of \<^verbatim>\<open>read_serial_data\<close>, on what \<^verbatim>\<open>readline()\<close> returned.\<close>

definition blank :: "string \<Rightarrow> bool" where
  "blank raw = (strip (decode_ascii raw) = [])"

text \<open>Successive calls \<^verbatim>\<open>calculate_statistics(key, v)\<close> for the values of one parameter.\<close>

fun calculate_feed ::
  "nat \<Rightarrow> string \<Rightarrow> real list \<Rightarrow> (string \<rightharpoonup> Statistics) \<Rightarrow> (string \<rightharpoonup> Statistics)" where
  "calculate_feed K key [] st = st"
| "calculate_feed K key (v # vs) st =
     calculate_feed K key vs (fst (calculate_statistics K key v st))"

text \<open>
  The invariant of a \<^verbatim>\<open>Statistics\<close> object that has been updated at least once: the
  extrema bound every value of the window and the mean.
\<close>

definition stat_inv :: "Statistics \<Rightarrow> bool" where
  "stat_inv stat =
     (1 \<le> count stat
      \<and> list_all (\<lambda>x. min_val stat \<le> x \<and> x \<le> max_val stat) (stat_values stat)
      \<and> min_val stat \<le> mean_val stat \<and> mean_val stat \<le> max_val stat)"

section \<open>The parsing algorithm as the specification words it\<close>

text \<open>
  The ordered mapping that a sequence of (name, value) pairs gives: names in the order
  of their first occurrence, each with its last value.
\<close>

definition dict_of_pairs :: "(string \<times> string) list \<Rightarrow> dict" where
  "dict_of_pairs ps = foldl (\<lambda>d (k, v). dict_set k v d) [] ps"

text \<open>``Pair tokens consecutively as (token[2i], token[2i+1]), dropping any trailing unpaired token.''\<close>

fun pair_up :: "string list \<Rightarrow> (string \<times> string) list" where
  "pair_up (a # b # rest) = (a, b) # pair_up rest"
| "pair_up [a] = []"
| "pair_up [] = []"

text \<open>
  ``Within each segment split on the first space, keeping only segments yielding exactly
  two non-empty tokens as (name, value)'', word for word: the segment is taken as it is.
\<close>

definition spec_segment :: "string \<Rightarrow> (string \<times> string) option" where
  "spec_segment seg =
     (case split_first (CHR '' '') seg of
        [name, value] \<Rightarrow> if name \<noteq> [] \<and> value \<noteq> [] then Some (name, value) else None
      | _ \<Rightarrow> None)"

definition spec_LineParser :: "string \<Rightarrow> dict" where
  "spec_LineParser line =
     (if CHR '','' \<in> set line
      then dict_of_pairs (List.map_filter spec_segment (split_sep (CHR '','') line))
      else dict_of_pairs (pair_up (split_ws line)))"

text \<open>
  The same algorithm with the trimming that the words leave out: a segment is trimmed
  before it is split, and so are the two tokens.
\<close>

definition spec_segment_trimmed :: "string \<Rightarrow> (string \<times> string) option" where
  "spec_segment_trimmed seg =
     (case split_first (CHR '' '') (strip seg) of
        [name, value] \<Rightarrow>
          if strip name \<noteq> [] \<and> strip value \<noteq> [] then Some (strip name, strip value) else None
      | _ \<Rightarrow> None)"

definition spec_LineParser_trimmed :: "string \<Rightarrow> dict" where
  "spec_LineParser_trimmed line =
     (if CHR '','' \<in> set line
      then dict_of_pairs (List.map_filter spec_segment_trimmed (split_sep (CHR '','') line))
      else dict_of_pairs (pair_up (split_ws line)))"

section \<open>The statistics in double precision\<close>






section \<open>Properties of the parser\<close>

lemma keys_dict_set:
  "keys (dict_set k v d) = (if k \<in> set (keys d) then keys d else keys d @ [k])"
  by (induction d) (force simp: keys_def)+

lemma keys_Nil: "keys [] = []"
  by (simp add: keys_def)

lemma distinct_dict_set: "distinct (keys d) \<Longrightarrow> distinct (keys (dict_set k v d))"
  by (simp add: keys_dict_set)

lemma length_dict_set: "length (dict_set k v d) \<le> Suc (length d)"
  by (induction d) auto

lemma split_first_two: "c \<in> set s \<Longrightarrow> \<exists>a b. split_first c s = [a, b]"
  by (simp add: split_first_def)

lemma comma_loop_no_raise: "snd (comma_loop pairs parsed) = None"
proof (induction pairs arbitrary: parsed)
  case Nil
  show ?case by simp
next
  case (Cons p ps)
  show ?case
  proof (cases "CHR '' '' \<in> set (strip p)")
    case True
    then obtain a b where "split_first (CHR '' '') (strip p) = [a, b]"
      using split_first_two by blast
    with True Cons show ?thesis by simp
  next
    case False
    with Cons show ?thesis by simp
  qed
qed

lemma pair_loop_no_raise: "snd (pair_loop parts is parsed) = None"
  by (induction "is" arbitrary: parsed) (simp_all add: py_index_def)

lemma comma_loop_distinct:
  "distinct (keys parsed) \<Longrightarrow> distinct (keys (fst (comma_loop pairs parsed)))"
proof (induction pairs arbitrary: parsed)
  case Nil
  then show ?case by simp
next
  case (Cons p ps)
  show ?case
  proof (cases "CHR '' '' \<in> set (strip p)")
    case True
    then obtain a b where "split_first (CHR '' '') (strip p) = [a, b]"
      using split_first_two by blast
    with True Cons show ?thesis by (simp add: distinct_dict_set)
  next
    case False
    with Cons show ?thesis by simp
  qed
qed

lemma pair_loop_distinct:
  "distinct (keys parsed) \<Longrightarrow> distinct (keys (fst (pair_loop parts is parsed)))"
  by (induction "is" arbitrary: parsed) (simp_all add: py_index_def distinct_dict_set)

lemma comma_loop_length:
  "length (fst (comma_loop pairs parsed)) \<le> length parsed + length pairs"
proof (induction pairs arbitrary: parsed)
  case Nil
  show ?case by simp
next
  case (Cons p ps)
  show ?case
  proof (cases "CHR '' '' \<in> set (strip p)")
    case True
    then obtain a b where ab: "split_first (CHR '' '') (strip p) = [a, b]"
      using split_first_two by blast
    have "length (fst (comma_loop ps (dict_set (strip a) (strip b) parsed)))
            \<le> length (dict_set (strip a) (strip b) parsed) + length ps"
      by (rule Cons.IH)
    also have "\<dots> \<le> Suc (length parsed) + length ps"
      using length_dict_set [of "strip a" "strip b" parsed] by simp
    finally show ?thesis using True ab by simp
  next
    case False
    have "length (fst (comma_loop ps parsed)) \<le> length parsed + length ps"
      by (rule Cons.IH)
    with False show ?thesis by simp
  qed
qed

lemma pair_loop_length:
  "length (fst (pair_loop parts is parsed)) \<le> length parsed + length is"
proof (induction "is" arbitrary: parsed)
  case Nil
  show ?case by simp
next
  case (Cons i js)
  show ?case
  proof (cases "i + 1 < length parts")
    case True
    have "length (fst (pair_loop parts js (dict_set (parts ! i) (parts ! (i + 1)) parsed)))
            \<le> length (dict_set (parts ! i) (parts ! (i + 1)) parsed) + length js"
      by (rule Cons.IH)
    also have "\<dots> \<le> Suc (length parsed) + length js"
      using length_dict_set [of "parts ! i" "parts ! (i + 1)" parsed] by simp
    finally show ?thesis using True by (simp add: py_index_def)
  next
    case False
    have "length (fst (pair_loop parts js parsed)) \<le> length parsed + length js"
      by (rule Cons.IH)
    with False show ?thesis by simp
  qed
qed

lemma length_filter_even_upt: "length (filter even [0 ..< n]) = (n + 1) div 2"
  by (induction n) auto

lemma length_range_step2: "length (range_step2 (int n - 1)) = n div 2"
  by (cases n) (simp_all add: range_step2_def length_filter_even_upt)

lemma split_ws_from_no_space:
  "\<forall>c \<in> set s. \<not> is_space c \<Longrightarrow>
     split_ws_from cur s = (if cur @ s = [] then [] else [cur @ s])"
  by (induction s arbitrary: cur) auto

lemma dropWhile_none: "\<forall>c \<in> set s. \<not> P c \<Longrightarrow> dropWhile P s = s"
  by (cases s) auto

lemma strip_no_space: "\<forall>c \<in> set s. \<not> is_space c \<Longrightarrow> strip s = s"
  by (simp add: strip_def dropWhile_none)

lemma parse_no_comma_no_space:
  assumes "CHR '','' \<notin> set line" and "\<forall>c \<in> set line. \<not> is_space c"
  shows "parse_data_line line = []"
proof -
  have "length (split_ws (strip line)) \<le> 1"
    using assms(2) by (simp add: strip_no_space split_ws_def split_ws_from_no_space)
  then have "range_step2 (int (length (split_ws (strip line))) - 1) = []"
    by (cases "length (split_ws (strip line))") (simp_all add: range_step2_def)
  with assms(1) show ?thesis
    by (simp add: parse_data_line_def parse_try_def Let_def)
qed

text \<open>
  Claim C6. For every line, no statement inside the \<^verbatim>\<open>try\<close> of \<^verbatim>\<open>parse_data_line\<close>
  raises, and the method returns a dictionary (its keys are distinct), possibly empty.
  Malformed input gives fewer fields, never a failure: a line with a comma gives at most
  one field per comma-separated segment, a line without one at most one field per two
  tokens. A line with no comma and no whitespace character, such as \<^verbatim>\<open>garbage\<close>,
  gives the empty dictionary.
\<close>

theorem parse_data_line_never_raises:
  "snd (parse_try line) = None
   \<and> distinct (keys (parse_data_line line))
   \<and> length (parse_data_line line)
       \<le> (if CHR '','' \<in> set line then length (split_sep (CHR '','') (strip line))
           else length (split_ws (strip line)) div 2)
   \<and> (CHR '','' \<notin> set line \<and> (\<forall>c \<in> set line. \<not> is_space c) \<longrightarrow> parse_data_line line = [])
   \<and> parse_data_line ''garbage'' = []"
proof (intro conjI)
  show "snd (parse_try line) = None"
    by (simp add: parse_try_def Let_def comma_loop_no_raise pair_loop_no_raise)
  show "distinct (keys (parse_data_line line))"
    by (simp add: parse_data_line_def parse_try_def Let_def comma_loop_distinct pair_loop_distinct keys_Nil)
  show "length (parse_data_line line)
       \<le> (if CHR '','' \<in> set line then length (split_sep (CHR '','') (strip line))
           else length (split_ws (strip line)) div 2)"
    using comma_loop_length [of "split_sep (CHR '','') (strip line)" "[]"]
      pair_loop_length [of "split_ws (strip line)"
        "range_step2 (int (length (split_ws (strip line))) - 1)" "[]"]
    by (simp add: parse_data_line_def parse_try_def Let_def length_range_step2)
  show "CHR '','' \<notin> set line \<and> (\<forall>c \<in> set line. \<not> is_space c) \<longrightarrow> parse_data_line line = []"
    using parse_no_comma_no_space by blast
  show "parse_data_line ''garbage'' = []"
    by code_simp
qed

theorem parse_data_line_never_raises_witness:
  "snd (parse_try ''S 5.0, T x, junk'') = None
   \<and> parse_data_line ''S 5.0, T x, junk'' = [(''S'', ''5.0''), (''T'', ''x'')]
   \<and> parse_data_line ''garbage'' = []"
  using parse_data_line_never_raises [of "''S 5.0, T x, junk''"]
  by (simp add: parse_data_line_def parse_try_def strip_def is_space_def split_first_def)

section \<open>Properties of the schema and of the data log\<close>

lemma add_columns_prefix: "prefix cols (fst (add_columns ks (cols, b)))"
proof (induction ks arbitrary: cols b)
  case Nil
  show ?case by simp
next
  case (Cons k ks)
  have "prefix cols (cols @ [k])" by simp
  also have "prefix (cols @ [k]) (fst (add_columns ks (cols @ [k], True)))"
    by (rule Cons.IH)
  finally show ?case using Cons.IH [of cols b] by simp
qed

lemma add_columns_closed_form:
  "distinct ks \<Longrightarrow>
     fst (add_columns ks (cols, b)) = cols @ filter (\<lambda>k. k \<notin> set cols) ks"
proof (induction ks arbitrary: cols b)
  case Nil
  show ?case by simp
next
  case (Cons k ks)
  then have k: "k \<notin> set ks" and d: "distinct ks" by simp_all
  have same: "filter (\<lambda>x. x \<notin> set (cols @ [k])) ks = filter (\<lambda>x. x \<notin> set cols) ks"
    using k by (intro filter_cong) auto
  show ?case using Cons.IH [OF d] same by simp
qed

lemma add_columns_flag:
  "snd (add_columns ks (cols, b)) = (b \<or> (\<exists>k \<in> set ks. k \<notin> set cols))"
  by (induction ks arbitrary: cols b) auto

lemma add_columns_set: "set (fst (add_columns ks (cols, b))) = set cols \<union> set ks"
  by (induction ks arbitrary: cols b) auto

lemma add_columns_changed:
  "(fst (add_columns ks (cols, b)) \<noteq> cols) = (\<exists>k \<in> set ks. k \<notin> set cols)"
proof
  assume "fst (add_columns ks (cols, b)) \<noteq> cols"
  then have "set (fst (add_columns ks (cols, b))) \<noteq> set cols \<or> True" by simp
  show "\<exists>k \<in> set ks. k \<notin> set cols"
  proof (rule ccontr)
    assume "\<not> (\<exists>k \<in> set ks. k \<notin> set cols)"
    then have "\<forall>k \<in> set ks. k \<in> set cols" by blast
    then have "fst (add_columns ks (cols, b)) = cols"
      by (induction ks arbitrary: b) auto
    with \<open>fst (add_columns ks (cols, b)) \<noteq> cols\<close> show False by simp
  qed
next
  assume "\<exists>k \<in> set ks. k \<notin> set cols"
  then have "set (fst (add_columns ks (cols, b))) \<noteq> set cols"
    by (auto simp: add_columns_set)
  then show "fst (add_columns ks (cols, b)) \<noteq> cols" by auto
qed

lemma update_csv_columns_columns:
  "csv_columns (snd (update_csv_columns parsed s))
     = fst (add_columns (keys parsed) (csv_columns s, False))"
  by (simp add: update_csv_columns_def Let_def split: prod.splits)

lemma update_csv_columns_written:
  "csv_headers_written (snd (update_csv_columns parsed s))"
  by (simp add: update_csv_columns_def Let_def split: prod.splits)

lemma update_csv_columns_log:
  "log_file (snd (update_csv_columns parsed s))
     = log_file s @ (if csv_headers_written s then []
                     else [Header (join '','' (csv_columns (snd (update_csv_columns parsed s))))])"
  by (simp add: update_csv_columns_def Let_def split: prod.splits)

lemma update_csv_columns_stats:
  "stats (snd (update_csv_columns parsed s)) = stats s"
  by (simp add: update_csv_columns_def Let_def split: prod.splits)

lemma read_blank: "blank raw \<Longrightarrow> read_serial_data pf K ts raw s = (s, None)"
  by (simp add: read_serial_data_def blank_def)

lemma read_columns:
  "\<not> blank raw \<Longrightarrow>
     csv_columns (fst (read_serial_data pf K ts raw s))
       = fst (add_columns (keys (parse_data_line (strip (decode_ascii raw)))) (csv_columns s, False))"
  by (simp add: read_serial_data_def blank_def Let_def write_csv_row_def
      update_csv_columns_columns split: prod.splits)

lemma read_written:
  "\<not> blank raw \<Longrightarrow> csv_headers_written (fst (read_serial_data pf K ts raw s))"
  by (simp add: read_serial_data_def blank_def Let_def write_csv_row_def
      update_csv_columns_written split: prod.splits)

lemma read_log:
  "\<not> blank raw \<Longrightarrow>
     log_file (fst (read_serial_data pf K ts raw s))
       = log_file s
         @ (if csv_headers_written s then []
            else [Header (join '','' (csv_columns (fst (read_serial_data pf K ts raw s))))])
         @ [Row (join '','' (row_values ts (parse_data_line (strip (decode_ascii raw)))
                              (csv_columns (fst (read_serial_data pf K ts raw s)))))]"
  by (simp add: read_serial_data_def blank_def Let_def write_csv_row_def
      update_csv_columns_columns update_csv_columns_log split: prod.splits)

lemma read_prefix: "prefix (csv_columns s) (csv_columns (fst (read_serial_data pf K ts raw s)))"
  by (cases "blank raw") (simp_all add: read_blank read_columns add_columns_prefix)

lemma session_append:
  "session pf K (xs @ ys) s = session pf K ys (session pf K xs s)"
  by (induction xs arbitrary: s) auto

lemma session_prefix: "prefix (csv_columns s) (csv_columns (session pf K ins s))"
proof (induction ins arbitrary: s)
  case Nil
  show ?case by simp
next
  case (Cons x xs)
  obtain ts raw where x: "x = (ts, raw)" by (cases x)
  have "prefix (csv_columns s) (csv_columns (fst (read_serial_data pf K ts raw s)))"
    by (rule read_prefix)
  also have "prefix \<dots> (csv_columns (session pf K xs (fst (read_serial_data pf K ts raw s))))"
    by (rule Cons.IH)
  finally show ?case by (simp add: x)
qed

text \<open>
  Claim C5. The column list starts as \<^verbatim>\<open>['timestamp']\<close> and only grows at its end:
  through a session it always begins with \<^verbatim>\<open>timestamp\<close>, and the column list before
  a call of \<^verbatim>\<open>update_csv_columns\<close>, before a call of \<^verbatim>\<open>read_serial_data\<close> or
  at an earlier moment of a session is a prefix of the column list afterwards, so no
  name is removed or moved.
\<close>

theorem schema_append_only:
  "prefix [''timestamp''] (csv_columns (session pf K ins logger_init))
   \<and> hd (csv_columns (session pf K ins logger_init)) = ''timestamp''
   \<and> prefix (csv_columns s) (csv_columns (snd (update_csv_columns parsed s)))
   \<and> prefix (csv_columns s) (csv_columns (fst (read_serial_data pf K ts raw s)))
   \<and> prefix (csv_columns (session pf K ins logger_init))
            (csv_columns (session pf K (ins @ later) logger_init))"
proof -
  have p: "prefix [''timestamp''] (csv_columns (session pf K ins logger_init))"
    using session_prefix [of logger_init pf K ins] by (simp add: logger_init_def)
  then have h: "hd (csv_columns (session pf K ins logger_init)) = ''timestamp''"
    by (auto simp: prefix_def)
  have u: "prefix (csv_columns s) (csv_columns (snd (update_csv_columns parsed s)))"
    by (simp add: update_csv_columns_columns add_columns_prefix)
  have m: "prefix (csv_columns (session pf K ins logger_init))
            (csv_columns (session pf K (ins @ later) logger_init))"
    by (simp add: session_append session_prefix)
  from p h u m read_prefix show ?thesis by blast
qed

theorem schema_append_only_witness:
  "csv_columns (session (\<lambda>x. None) 150
      [(''t1'', ''S 5.0, T 20.0''), (''t2'', ''S 6.0, T 21.0, H 50.0'')] logger_init)
     = [''timestamp'', ''S'', ''T'', ''H'']
   \<and> prefix (csv_columns (session (\<lambda>x. None) 150 [(''t1'', ''S 5.0, T 20.0'')] logger_init))
       (csv_columns (session (\<lambda>x. None) 150
          ([(''t1'', ''S 5.0, T 20.0'')] @ [(''t2'', ''S 6.0, T 21.0, H 50.0'')]) logger_init))"
  using schema_append_only [of "\<lambda>x. None" 150 "[(''t1'', ''S 5.0, T 20.0'')]" logger_init "[]"
      "''t''" "''''" "[(''t2'', ''S 6.0, T 21.0, H 50.0'')]"]
  by (simp add: read_serial_data_def parse_data_line_def parse_try_def strip_def is_space_def
      split_first_def decode_ascii_def update_csv_columns_def write_csv_row_def keys_def
      logger_init_def Let_def)

text \<open>
  Claim C2, as amended. For a dictionary \<open>parsed_data\<close> (its keys are distinct),
  \<^verbatim>\<open>update_csv_columns\<close> appends to the column list the keys that are not in it yet, in
  the order of the dictionary. The method returns \<^verbatim>\<open>None\<close> in every case: the local
  flag \<^verbatim>\<open>new_columns\<close> does hold whether the column list changed, but it is not
  returned.
\<close>

theorem update_csv_columns_returns_none:
  assumes "distinct (keys parsed_data)"
  shows "csv_columns (snd (update_csv_columns parsed_data s))
       = csv_columns s @ filter (\<lambda>k. k \<notin> set (csv_columns s)) (keys parsed_data)
     \<and> fst (update_csv_columns parsed_data s) = PyNone
     \<and> snd (add_columns (keys parsed_data) (csv_columns s, False))
         = (csv_columns (snd (update_csv_columns parsed_data s)) \<noteq> csv_columns s)"
proof (intro conjI)
  show "csv_columns (snd (update_csv_columns parsed_data s))
       = csv_columns s @ filter (\<lambda>k. k \<notin> set (csv_columns s)) (keys parsed_data)"
    using assms by (simp add: update_csv_columns_columns add_columns_closed_form)
  show "fst (update_csv_columns parsed_data s) = PyNone"
    by (simp add: update_csv_columns_def Let_def split: prod.splits)
  show "snd (add_columns (keys parsed_data) (csv_columns s, False))
         = (csv_columns (snd (update_csv_columns parsed_data s)) \<noteq> csv_columns s)"
    by (simp add: update_csv_columns_columns add_columns_flag add_columns_changed)
qed

theorem update_csv_columns_returns_none_witness:
  "distinct (keys [(''S'', ''5.0''), (''T'', ''20.0'')])
   \<and> csv_columns (snd (update_csv_columns [(''S'', ''5.0''), (''T'', ''20.0'')] logger_init))
       = [''timestamp'', ''S'', ''T'']
   \<and> fst (update_csv_columns [(''S'', ''5.0''), (''T'', ''20.0'')] logger_init) = PyNone"
  using update_csv_columns_returns_none [of "[(''S'', ''5.0''), (''T'', ''20.0'')]" logger_init]
  by (simp add: keys_def logger_init_def)

text \<open>
  Claim C2 as stated fails: observing \<^verbatim>\<open>{'S': '5.0'}\<close> on a new logger changes the
  column list, and the value returned is \<^verbatim>\<open>None\<close>, which is not truthy.
\<close>

theorem update_csv_columns_result_counterexample:
  "csv_columns (snd (update_csv_columns [(''S'', ''5.0'')] logger_init)) \<noteq> csv_columns logger_init
   \<and> \<not> truthy (fst (update_csv_columns [(''S'', ''5.0'')] logger_init))"
  by (simp add: update_csv_columns_def keys_def logger_init_def)

subsection \<open>One header\<close>

lemma session_blanks: "\<forall>x \<in> set blanks. blank (snd x) \<Longrightarrow> session pf K blanks s = s"
  by (induction blanks arbitrary: s) (auto simp: read_blank)

lemma read_written_stays:
  "csv_headers_written s \<Longrightarrow> csv_headers_written (fst (read_serial_data pf K ts raw s))"
  by (cases "blank raw") (simp_all add: read_blank read_written)

lemma read_log_written:
  "csv_headers_written s \<Longrightarrow>
     \<exists>rows. log_file (fst (read_serial_data pf K ts raw s)) = log_file s @ map Row rows
            \<and> length rows = (if blank raw then 0 else 1)"
proof (cases "blank raw")
  case True
  then show ?thesis by (simp add: read_blank)
next
  case False
  assume w: "csv_headers_written s"
  let ?r = "join '','' (row_values ts (parse_data_line (strip (decode_ascii raw)))
                          (csv_columns (fst (read_serial_data pf K ts raw s))))"
  have "log_file (fst (read_serial_data pf K ts raw s)) = log_file s @ map Row [?r]"
    using read_log [OF False, of pf K ts s] w by simp
  with False show ?thesis by (intro exI [of _ "[?r]"]) simp
qed

lemma session_log_written:
  "csv_headers_written s \<Longrightarrow>
     \<exists>rows. log_file (session pf K ins s) = log_file s @ map Row rows
            \<and> length rows = length (filter (\<lambda>x. \<not> blank (snd x)) ins)"
proof (induction ins arbitrary: s)
  case Nil
  show ?case by simp
next
  case (Cons x xs)
  obtain ts raw where x: "x = (ts, raw)" by (cases x)
  let ?s1 = "fst (read_serial_data pf K ts raw s)"
  from read_log_written [OF Cons.prems, of pf K ts raw]
  obtain r1 where r1: "log_file ?s1 = log_file s @ map Row r1"
    and l1: "length r1 = (if blank raw then 0 else 1)" by blast
  have "csv_headers_written ?s1" using Cons.prems by (rule read_written_stays)
  from Cons.IH [OF this]
  obtain r2 where r2: "log_file (session pf K xs ?s1) = log_file ?s1 @ map Row r2"
    and l2: "length r2 = length (filter (\<lambda>x. \<not> blank (snd x)) xs)" by blast
  have "log_file (session pf K (x # xs) s) = log_file s @ map Row (r1 @ r2)"
    using r1 r2 by (simp add: x)
  moreover have "length (r1 @ r2) = length (filter (\<lambda>x. \<not> blank (snd x)) (x # xs))"
    using l1 l2 by (simp add: x)
  ultimately show ?case by blast
qed

lemma filter_header_rows: "filter is_header (map Row rows) = []"
  by (induction rows) auto

lemma parse_data_line_distinct: "distinct (keys (parse_data_line line))"
  by (simp add: parse_data_line_def parse_try_def Let_def comma_loop_distinct pair_loop_distinct keys_Nil)

lemma first_columns:
  "\<not> blank raw \<Longrightarrow>
     csv_columns (fst (read_serial_data pf K ts raw logger_init))
       = ''timestamp'' # filter (\<lambda>k. k \<noteq> ''timestamp'') (keys (parse_data_line (strip (decode_ascii raw))))"
  by (simp add: read_columns add_columns_closed_form parse_data_line_distinct logger_init_def)

text \<open>
  Claim C3. In a session that starts with a new logger, nothing is written while the
  lines are empty. The first non-empty line makes \<^verbatim>\<open>update_csv_columns\<close> write the
  header, from the column list as it is after the fields of that line were observed:
  \<^verbatim>\<open>timestamp\<close> and the field names of that line. Whatever lines follow, and however
  the column list grows, the file is that header followed by data rows only, one per
  non-empty line: there is exactly one header line, and it is the first line.
\<close>

theorem header_written_once:
  assumes "\<forall>x \<in> set blanks. blank (snd x)" and "\<not> blank raw"
  shows "log_file (session pf K blanks logger_init) = []
     \<and> (\<exists>rows. log_file (session pf K (blanks @ (ts, raw) # rest) logger_init)
                  = Header (join '','' (csv_columns (fst (read_serial_data pf K ts raw logger_init))))
                    # map Row rows
               \<and> length rows = 1 + length (filter (\<lambda>x. \<not> blank (snd x)) rest))
     \<and> filter is_header (log_file (session pf K (blanks @ (ts, raw) # rest) logger_init))
         = [Header (join '','' (csv_columns (fst (read_serial_data pf K ts raw logger_init))))]
     \<and> csv_columns (fst (read_serial_data pf K ts raw logger_init))
         = ''timestamp'' # filter (\<lambda>k. k \<noteq> ''timestamp'')
                             (keys (parse_data_line (strip (decode_ascii raw))))"
proof -
  let ?s1 = "fst (read_serial_data pf K ts raw logger_init)"
  let ?h = "Header (join '','' (csv_columns ?s1))"
  let ?r = "join '','' (row_values ts (parse_data_line (strip (decode_ascii raw))) (csv_columns ?s1))"
  have b: "session pf K blanks logger_init = logger_init"
    using assms(1) by (rule session_blanks)
  have l1: "log_file ?s1 = [?h, Row ?r]"
    using read_log [OF assms(2), of pf K ts logger_init] by (simp add: logger_init_def)
  have "csv_headers_written ?s1" using assms(2) by (rule read_written)
  from session_log_written [OF this, of pf K rest]
  obtain rows where rows: "log_file (session pf K rest ?s1) = log_file ?s1 @ map Row rows"
    and len: "length rows = length (filter (\<lambda>x. \<not> blank (snd x)) rest)" by blast
  have whole: "log_file (session pf K (blanks @ (ts, raw) # rest) logger_init)
                 = ?h # map Row (?r # rows)"
    using rows l1 b by (simp add: session_append)
  have "log_file (session pf K blanks logger_init) = []"
    using b by (simp add: logger_init_def)
  moreover have "\<exists>rows. log_file (session pf K (blanks @ (ts, raw) # rest) logger_init)
                  = ?h # map Row rows
               \<and> length rows = 1 + length (filter (\<lambda>x. \<not> blank (snd x)) rest)"
    using whole len by (intro exI [of _ "?r # rows"]) simp
  moreover have "filter is_header (log_file (session pf K (blanks @ (ts, raw) # rest) logger_init))
                   = [?h]"
    unfolding whole by (simp add: filter_header_rows del: list.map)
  ultimately show ?thesis using first_columns [OF assms(2), of pf K ts] by blast
qed

theorem header_written_once_witness:
  "filter is_header (log_file (session (\<lambda>x. None) 150
       ([(''t0'', '' '')] @ (''t1'', ''S 5.0, T 20.0'') # [(''t2'', ''S 6.0, T 21.0, H 50.0'')])
       logger_init))
     = [Header ''timestamp,S,T'']
   \<and> csv_columns (session (\<lambda>x. None) 150
       ([(''t0'', '' '')] @ (''t1'', ''S 5.0, T 20.0'') # [(''t2'', ''S 6.0, T 21.0, H 50.0'')])
       logger_init) = [''timestamp'', ''S'', ''T'', ''H'']"
proof -
  have b: "\<forall>x \<in> set [(''t0'', '' '')]. blank (snd x)"
    by (simp add: blank_def strip_def decode_ascii_def is_space_def)
  have n: "\<not> blank ''S 5.0, T 20.0''"
    by (simp add: blank_def strip_def decode_ascii_def is_space_def)
  have c: "csv_columns (fst (read_serial_data (\<lambda>x. None) 150 ''t1'' ''S 5.0, T 20.0'' logger_init))
             = [''timestamp'', ''S'', ''T'']"
    by (simp add: read_serial_data_def parse_data_line_def parse_try_def strip_def is_space_def
      split_first_def decode_ascii_def update_csv_columns_def write_csv_row_def keys_def
      logger_init_def Let_def)
  have d: "csv_columns (session (\<lambda>x. None) 150
       ([(''t0'', '' '')] @ (''t1'', ''S 5.0, T 20.0'') # [(''t2'', ''S 6.0, T 21.0, H 50.0'')])
       logger_init) = [''timestamp'', ''S'', ''T'', ''H'']"
    by (simp add: read_serial_data_def parse_data_line_def parse_try_def strip_def is_space_def
      split_first_def decode_ascii_def update_csv_columns_def write_csv_row_def keys_def
      logger_init_def Let_def)
  show ?thesis
    using header_written_once [OF b n, of "\<lambda>x. None" 150 "''t1''"
        "[(''t2'', ''S 6.0, T 21.0, H 50.0'')]"] c d
    by simp
qed

subsection \<open>Fields of a row\<close>

lemma split_sep_no_sep: "c \<notin> set x \<Longrightarrow> split_sep c x = [x]"
  by (induction x) auto

lemma split_sep_append: "c \<notin> set x \<Longrightarrow> split_sep c (x @ c # ys) = x # split_sep c ys"
  by (induction x) auto

lemma split_sep_join:
  "xs \<noteq> [] \<Longrightarrow> \<forall>x \<in> set xs. c \<notin> set x \<Longrightarrow> split_sep c (join [c] xs) = xs"
proof (induction "[c]" xs rule: join.induct)
  case 1
  then show ?case by simp
next
  case (2 x)
  then show ?case by (simp add: split_sep_no_sep)
next
  case (3 x y ys)
  then show ?case by (simp add: split_sep_append)
qed

lemma split_sep_pieces: "w \<in> set (split_sep c s) \<Longrightarrow> c \<notin> set w"
proof (induction s arbitrary: w)
  case Nil
  then show ?case by simp
next
  case (Cons x xs)
  then show ?case by (cases "split_sep c xs") (auto split: if_splits)
qed

lemma set_strip: "set (strip s) \<subseteq> set s"
proof -
  have "set (strip s) = set (dropWhile is_space (rev (dropWhile is_space s)))"
    by (simp add: strip_def)
  also have "\<dots> \<subseteq> set (rev (dropWhile is_space s))"
    by (auto dest: set_dropWhileD)
  also have "\<dots> \<subseteq> set s"
    by (auto dest: set_dropWhileD)
  finally show ?thesis .
qed

lemma set_tl_subset: "set (tl xs) \<subseteq> set xs"
  by (cases xs) auto

lemma split_first_pieces: "w \<in> set (split_first c s) \<Longrightarrow> set w \<subseteq> set s"
proof -
  assume w: "w \<in> set (split_first c s)"
  have t: "set (takeWhile (\<lambda>x. x \<noteq> c) s) \<subseteq> set s"
    by (auto dest: set_takeWhileD)
  have "set (tl (dropWhile (\<lambda>x. x \<noteq> c) s)) \<subseteq> set (dropWhile (\<lambda>x. x \<noteq> c) s)"
    by (rule set_tl_subset)
  also have "\<dots> \<subseteq> set s" by (auto dest: set_dropWhileD)
  finally have d: "set (tl (dropWhile (\<lambda>x. x \<noteq> c) s)) \<subseteq> set s" .
  from w have "w = takeWhile (\<lambda>x. x \<noteq> c) s \<or> w = tl (dropWhile (\<lambda>x. x \<noteq> c) s) \<or> w = s"
    by (auto simp: split_first_def split: if_splits)
  with t d show ?thesis by blast
qed

lemma split_ws_from_pieces:
  "w \<in> set (split_ws_from cur s) \<Longrightarrow> set w \<subseteq> set cur \<union> set s"
proof (induction s arbitrary: cur w)
  case Nil
  then show ?case by (auto split: if_splits)
next
  case (Cons x xs)
  show ?case
  proof (cases "is_space x")
    case True
    with Cons.prems have "w = cur \<or> w \<in> set (split_ws_from [] xs)"
      by (auto split: if_splits)
    then show ?thesis using Cons.IH [of w "[]"] by auto
  next
    case False
    with Cons.prems have "w \<in> set (split_ws_from (cur @ [x]) xs)" by simp
    then show ?thesis using Cons.IH [of w "cur @ [x]"] by auto
  qed
qed

lemma set_dict_set: "set (dict_set k v d) \<subseteq> insert (k, v) (set d)"
  by (induction d) (auto split: if_splits)

lemma comma_loop_free:
  assumes "\<forall>p \<in> set pairs. c \<notin> set p"
    and "\<forall>(k, v) \<in> set parsed. c \<notin> set k \<and> c \<notin> set v"
  shows "\<forall>(k, v) \<in> set (fst (comma_loop pairs parsed)). c \<notin> set k \<and> c \<notin> set v"
  using assms
proof (induction pairs arbitrary: parsed)
  case Nil
  then show ?case by simp
next
  case (Cons p ps)
  show ?case
  proof (cases "CHR '' '' \<in> set (strip p)")
    case True
    then obtain a b where ab: "split_first (CHR '' '') (strip p) = [a, b]"
      using split_first_two by blast
    have sp: "c \<notin> set (strip p)" using Cons.prems(1) set_strip [of p] by auto
    have "set a \<subseteq> set (strip p)" "set b \<subseteq> set (strip p)"
      using split_first_pieces [of a "CHR '' ''" "strip p"]
        split_first_pieces [of b "CHR '' ''" "strip p"] ab by simp_all
    then have "c \<notin> set (strip a)" "c \<notin> set (strip b)"
      using sp set_strip [of a] set_strip [of b] by auto
    then have "\<forall>(k, v) \<in> set (dict_set (strip a) (strip b) parsed). c \<notin> set k \<and> c \<notin> set v"
      using Cons.prems(2) set_dict_set [of "strip a" "strip b" parsed] by auto
    then have "\<forall>(k, v) \<in> set (fst (comma_loop ps (dict_set (strip a) (strip b) parsed))).
                 c \<notin> set k \<and> c \<notin> set v"
      using Cons.IH Cons.prems(1) by simp
    then show ?thesis using True ab by simp
  next
    case False
    then show ?thesis using Cons by simp
  qed
qed

lemma pair_loop_free:
  assumes "\<forall>p \<in> set parts. c \<notin> set p"
    and "\<forall>(k, v) \<in> set parsed. c \<notin> set k \<and> c \<notin> set v"
  shows "\<forall>(k, v) \<in> set (fst (pair_loop parts is parsed)). c \<notin> set k \<and> c \<notin> set v"
  using assms
proof (induction "is" arbitrary: parsed)
  case Nil
  then show ?case by simp
next
  case (Cons i js)
  show ?case
  proof (cases "i + 1 < length parts")
    case True
    then have "c \<notin> set (parts ! i)" "c \<notin> set (parts ! (i + 1))"
      using Cons.prems(1) by simp_all
    then have "\<forall>(k, v) \<in> set (dict_set (parts ! i) (parts ! (i + 1)) parsed).
                 c \<notin> set k \<and> c \<notin> set v"
      using Cons.prems(2) set_dict_set [of "parts ! i" "parts ! (i + 1)" parsed] by auto
    then have "\<forall>(k, v) \<in> set (fst (pair_loop parts js (dict_set (parts ! i) (parts ! (i + 1)) parsed))).
                 c \<notin> set k \<and> c \<notin> set v"
      using Cons.IH Cons.prems(1) by simp
    then show ?thesis using True by (simp add: py_index_def)
  next
    case False
    then show ?thesis using Cons by simp
  qed
qed

lemma parse_data_line_comma_free:
  "(k, v) \<in> set (parse_data_line line) \<Longrightarrow> CHR '','' \<notin> set k \<and> CHR '','' \<notin> set v"
proof (cases "CHR '','' \<in> set line")
  case True
  assume kv: "(k, v) \<in> set (parse_data_line line)"
  have "\<forall>p \<in> set (split_sep (CHR '','') (strip line)). CHR '','' \<notin> set p"
    using split_sep_pieces by blast
  from comma_loop_free [OF this, of "[]"] kv True show ?thesis
    by (auto simp: parse_data_line_def parse_try_def)
next
  case False
  assume kv: "(k, v) \<in> set (parse_data_line line)"
  have "\<forall>p \<in> set (split_ws (strip line)). CHR '','' \<notin> set p"
    using split_ws_from_pieces [of _ "[]" "strip line"] set_strip [of line] False
    by (auto simp: split_ws_def)
  from pair_loop_free [OF this, of "[]"] kv False show ?thesis
    by (auto simp: parse_data_line_def parse_try_def Let_def)
qed

lemma dict_get_comma_free: "CHR '','' \<notin> set (dict_get (parse_data_line line) col [])"
proof (cases "map_of (parse_data_line line) col")
  case None
  then show ?thesis by (simp add: dict_get_def)
next
  case (Some v)
  then have "(col, v) \<in> set (parse_data_line line)" by (rule map_of_SomeD)
  then have "CHR '','' \<notin> set v" using parse_data_line_comma_free by blast
  with Some show ?thesis by (simp add: dict_get_def)
qed

lemma row_values_comma_free:
  assumes "CHR '','' \<notin> set ts" and "x \<in> set (row_values ts (parse_data_line line) cols)"
  shows "CHR '','' \<notin> set x"
proof -
  from assms(2) have "x = ts \<or> (\<exists>c. x = dict_get (parse_data_line line) c [])"
    by (auto simp: row_values_def split: if_splits)
  then show ?thesis
  proof
    assume "x = ts"
    with assms(1) show ?thesis by simp
  next
    assume "\<exists>c. x = dict_get (parse_data_line line) c []"
    then obtain c where "x = dict_get (parse_data_line line) c []" ..
    then show ?thesis using dict_get_comma_free [of line c] by simp
  qed
qed

lemma row_split:
  assumes "cols \<noteq> []" and "CHR '','' \<notin> set ts"
  shows "split_sep (CHR '','') (join '','' (row_values ts (parse_data_line line) cols))
           = row_values ts (parse_data_line line) cols"
proof (rule split_sep_join)
  show "row_values ts (parse_data_line line) cols \<noteq> []"
    using assms(1) by (simp add: row_values_def)
  show "\<forall>x \<in> set (row_values ts (parse_data_line line) cols). CHR '','' \<notin> set x"
    using row_values_comma_free [OF assms(2)] by blast
qed

lemma read_columns_comma_free:
  assumes "\<forall>c \<in> set (csv_columns s). CHR '','' \<notin> set c"
  shows "\<forall>c \<in> set (csv_columns (fst (read_serial_data pf K ts raw s))). CHR '','' \<notin> set c"
proof (cases "blank raw")
  case True
  with assms show ?thesis by (simp add: read_blank)
next
  case False
  have "\<forall>k \<in> set (keys (parse_data_line (strip (decode_ascii raw)))). CHR '','' \<notin> set k"
    using parse_data_line_comma_free by (fastforce simp: keys_def)
  with assms False show ?thesis
    by (auto simp: read_columns add_columns_set)
qed

lemma read_log_shape:
  assumes "csv_columns s \<noteq> []
         \<and> (csv_headers_written s \<longrightarrow>
               (\<exists>hcols rows. log_file s = Header (join '','' hcols) # rows
                  \<and> hcols \<noteq> [] \<and> prefix hcols (csv_columns s)))
         \<and> (\<not> csv_headers_written s \<longrightarrow> log_file s = [])"
  shows "csv_columns (fst (read_serial_data pf K ts raw s)) \<noteq> []
         \<and> (csv_headers_written (fst (read_serial_data pf K ts raw s)) \<longrightarrow>
               (\<exists>hcols rows. log_file (fst (read_serial_data pf K ts raw s)) = Header (join '','' hcols) # rows
                  \<and> hcols \<noteq> [] \<and> prefix hcols (csv_columns (fst (read_serial_data pf K ts raw s)))))
         \<and> (\<not> csv_headers_written (fst (read_serial_data pf K ts raw s)) \<longrightarrow> log_file (fst (read_serial_data pf K ts raw s)) = [])"
proof (cases "blank raw")
  case True
  then have same: "fst (read_serial_data pf K ts raw s) = s" by (simp add: read_blank)
  show ?thesis unfolding same by (rule assms)
next
  case False
  let ?s' = "fst (read_serial_data pf K ts raw s)"
  let ?r = "Row (join '','' (row_values ts (parse_data_line (strip (decode_ascii raw))) (csv_columns ?s')))"
  have w: "csv_headers_written ?s'" using False by (rule read_written)
  have p: "prefix (csv_columns s) (csv_columns ?s')" by (rule read_prefix)
  show ?thesis
  proof (cases "csv_headers_written s")
    case True
    with assms obtain hcols rows where
      l: "log_file s = Header (join '','' hcols) # rows" and h: "hcols \<noteq> []"
      and hp: "prefix hcols (csv_columns s)" by auto
    have "log_file ?s' = Header (join '','' hcols) # (rows @ [?r])"
      using read_log [OF False, of pf K ts s] True l by simp
    moreover have "prefix hcols (csv_columns ?s')" using hp p by (rule prefix_order.trans)
    ultimately show ?thesis using w h by auto
  next
    case F: False
    with assms have l: "log_file s = []" and c: "csv_columns s \<noteq> []" by simp_all
    have "log_file ?s' = Header (join '','' (csv_columns ?s')) # [?r]"
      using read_log [OF False, of pf K ts s] F l by simp
    moreover have "csv_columns ?s' \<noteq> []" using p c by auto
    ultimately show ?thesis using w by auto
  qed
qed

lemma session_columns_comma_free:
  "\<forall>c \<in> set (csv_columns s). CHR '','' \<notin> set c \<Longrightarrow>
     \<forall>c \<in> set (csv_columns (session pf K ins s)). CHR '','' \<notin> set c"
proof (induction ins arbitrary: s)
  case Nil
  then show ?case by simp
next
  case (Cons x xs)
  obtain ts raw where x: "x = (ts, raw)" by (cases x)
  show ?case using Cons.IH [OF read_columns_comma_free [OF Cons.prems, of pf K ts raw]]
    by (simp add: x)
qed

lemma session_log_shape:
  assumes "csv_columns s \<noteq> []
         \<and> (csv_headers_written s \<longrightarrow>
               (\<exists>hcols rows. log_file s = Header (join '','' hcols) # rows
                  \<and> hcols \<noteq> [] \<and> prefix hcols (csv_columns s)))
         \<and> (\<not> csv_headers_written s \<longrightarrow> log_file s = [])"
  shows "csv_columns (session pf K ins s) \<noteq> []
         \<and> (csv_headers_written (session pf K ins s) \<longrightarrow>
               (\<exists>hcols rows. log_file (session pf K ins s) = Header (join '','' hcols) # rows
                  \<and> hcols \<noteq> [] \<and> prefix hcols (csv_columns (session pf K ins s))))
         \<and> (\<not> csv_headers_written (session pf K ins s) \<longrightarrow> log_file (session pf K ins s) = [])"
  using assms
proof (induction ins arbitrary: s)
  case Nil
  then show ?case by simp
next
  case (Cons x xs)
  obtain ts raw where x: "x = (ts, raw)" by (cases x)
  show ?case using Cons.IH [OF read_log_shape [OF Cons.prems, of pf K ts raw]]
    by (simp add: x)
qed

lemma three_lines_not_blank:
  "\<not> blank ''S 5.0, T 20.0''" "\<not> blank ''S 6.0, T 21.0, H 50.0''" "\<not> blank ''S 7.0, T 22.0, H 51.0''"
  by (simp_all add: blank_def strip_def decode_ascii_def is_space_def)

lemma three_lines_parsed:
  "parse_data_line (strip (decode_ascii ''S 5.0, T 20.0'')) = [(''S'', ''5.0''), (''T'', ''20.0'')]"
  "parse_data_line (strip (decode_ascii ''S 6.0, T 21.0, H 50.0''))
     = [(''S'', ''6.0''), (''T'', ''21.0''), (''H'', ''50.0'')]"
  "parse_data_line (strip (decode_ascii ''S 7.0, T 22.0, H 51.0''))
     = [(''S'', ''7.0''), (''T'', ''22.0''), (''H'', ''51.0'')]"
  by (simp_all add: parse_data_line_def parse_try_def strip_def is_space_def split_first_def
      decode_ascii_def)

lemma three_lines_log:
  "log_file (session pf K [(''t1'', ''S 5.0, T 20.0''), (''t2'', ''S 6.0, T 21.0, H 50.0''),
       (''t3'', ''S 7.0, T 22.0, H 51.0'')] logger_init)
     = [Header ''timestamp,S,T'', Row ''t1,5.0,20.0'', Row ''t2,6.0,21.0,50.0'',
        Row ''t3,7.0,22.0,51.0'']"
proof -
  let ?s1 = "fst (read_serial_data pf K ''t1'' ''S 5.0, T 20.0'' logger_init)"
  let ?s2 = "fst (read_serial_data pf K ''t2'' ''S 6.0, T 21.0, H 50.0'' ?s1)"
  let ?s3 = "fst (read_serial_data pf K ''t3'' ''S 7.0, T 22.0, H 51.0'' ?s2)"
  have c1: "csv_columns ?s1 = [''timestamp'', ''S'', ''T'']"
    by (simp add: read_columns three_lines_not_blank three_lines_parsed keys_def logger_init_def)
  have c2: "csv_columns ?s2 = [''timestamp'', ''S'', ''T'', ''H'']"
    by (simp add: read_columns three_lines_not_blank three_lines_parsed keys_def c1)
  have c3: "csv_columns ?s3 = [''timestamp'', ''S'', ''T'', ''H'']"
    by (simp add: read_columns three_lines_not_blank three_lines_parsed keys_def c2)
  have l1: "log_file ?s1 = [Header ''timestamp,S,T'', Row ''t1,5.0,20.0'']"
    by (simp add: read_log three_lines_not_blank three_lines_parsed c1 row_values_def dict_get_def)
      (simp add: logger_init_def)
  have w1: "csv_headers_written ?s1" by (simp add: read_written three_lines_not_blank)
  have l2: "log_file ?s2 = [Header ''timestamp,S,T'', Row ''t1,5.0,20.0'', Row ''t2,6.0,21.0,50.0'']"
    by (simp add: read_log three_lines_not_blank three_lines_parsed c2 row_values_def dict_get_def
        w1 l1)
  have w2: "csv_headers_written ?s2" by (simp add: read_written three_lines_not_blank)
  have l3: "log_file ?s3 = [Header ''timestamp,S,T'', Row ''t1,5.0,20.0'', Row ''t2,6.0,21.0,50.0'',
        Row ''t3,7.0,22.0,51.0'']"
    by (simp add: read_log three_lines_not_blank three_lines_parsed c3 row_values_def dict_get_def
        w2 l2)
  show ?thesis using l3 by simp
qed

text \<open>
  Claim C4. At any moment of a session, a non-empty line makes \<^verbatim>\<open>write_csv_row\<close>
  write one row whose comma-separated fields are, column by column of the column list
  at that moment, the time stamp, the value of the line for that column, or the empty
  string where the line has none (the text of a time stamp has no comma). The columns
  that the header declares are a prefix of that column list, so once the column list
  has grown past the header the row has strictly more fields than the header. The
  three lines \<^verbatim>\<open>S 5.0, T 20.0\<close>, \<^verbatim>\<open>S 6.0, T 21.0, H 50.0\<close>, \<^verbatim>\<open>S 7.0, T 22.0, H 51.0\<close>
  give the header \<^verbatim>\<open>timestamp,S,T\<close> and second and third rows that end with a value
  for \<^verbatim>\<open>H\<close>.
\<close>

theorem rows_follow_current_schema:
  assumes "\<not> blank raw" and "CHR '','' \<notin> set ts"
  shows "(\<exists>h rows r.
            log_file (fst (read_serial_data pf K ts raw (session pf K ins logger_init)))
              = Header h # rows @ [Row r]
          \<and> split_sep (CHR '','') r
              = map (\<lambda>column. if column = ''timestamp'' then ts
                       else case map_of (parse_data_line (strip (decode_ascii raw))) column of
                              Some v \<Rightarrow> v | None \<Rightarrow> [])
                  (csv_columns (fst (read_serial_data pf K ts raw (session pf K ins logger_init))))
          \<and> prefix (split_sep (CHR '','') h)
              (csv_columns (fst (read_serial_data pf K ts raw (session pf K ins logger_init))))
          \<and> (split_sep (CHR '','') h
                \<noteq> csv_columns (fst (read_serial_data pf K ts raw (session pf K ins logger_init)))
               \<longrightarrow> length (split_sep (CHR '','') h) < length (split_sep (CHR '','') r)))
     \<and> log_file (session pf K [(''t1'', ''S 5.0, T 20.0''), (''t2'', ''S 6.0, T 21.0, H 50.0''),
           (''t3'', ''S 7.0, T 22.0, H 51.0'')] logger_init)
         = [Header ''timestamp,S,T'', Row ''t1,5.0,20.0'', Row ''t2,6.0,21.0,50.0'',
            Row ''t3,7.0,22.0,51.0'']"
proof -
  let ?s = "session pf K ins logger_init"
  let ?s' = "fst (read_serial_data pf K ts raw ?s)"
  let ?parsed = "parse_data_line (strip (decode_ascii raw))"
  let ?r = "join '','' (row_values ts ?parsed (csv_columns ?s'))"
  have init: "csv_columns logger_init \<noteq> []
         \<and> (csv_headers_written logger_init \<longrightarrow>
               (\<exists>hcols rows. log_file logger_init = Header (join '','' hcols) # rows
                  \<and> hcols \<noteq> [] \<and> prefix hcols (csv_columns logger_init)))
         \<and> (\<not> csv_headers_written logger_init \<longrightarrow> log_file logger_init = [])"
    by (simp add: logger_init_def)
  have "session pf K (ins @ [(ts, raw)]) logger_init = ?s'"
    by (simp add: session_append)
  with session_log_shape [OF init, of pf K "ins @ [(ts, raw)]"] read_written [OF assms(1), of pf K ts ?s]
  obtain hcols rows0 where l: "log_file ?s' = Header (join '','' hcols) # rows0"
    and h: "hcols \<noteq> []" and hp: "prefix hcols (csv_columns ?s')" by auto
  have "\<forall>c \<in> set (csv_columns logger_init). CHR '','' \<notin> set c"
    by (simp add: logger_init_def)
  then have "\<forall>c \<in> set (csv_columns (session pf K (ins @ [(ts, raw)]) logger_init)). CHR '','' \<notin> set c"
    by (rule session_columns_comma_free)
  then have cf: "\<forall>c \<in> set (csv_columns ?s'). CHR '','' \<notin> set c"
    by (simp add: session_append)
  have hs: "split_sep (CHR '','') (join '','' hcols) = hcols"
    using h hp cf by (intro split_sep_join) (auto simp: prefix_def)
  have ne: "csv_columns ?s' \<noteq> []" using h hp by auto
  have rs: "split_sep (CHR '','') ?r = row_values ts ?parsed (csv_columns ?s')"
    using ne assms(2) by (rule row_split)
  have "last (log_file ?s') = Row ?r"
    using read_log [OF assms(1), of pf K ts ?s] by simp
  moreover have "rows0 \<noteq> []"
    using read_log [OF assms(1), of pf K ts ?s] l by (auto split: if_splits simp: append_eq_Cons_conv)
  ultimately have "rows0 = butlast rows0 @ [Row ?r]"
    using l by (metis append_butlast_last_id last_ConsR)
  with l have shape: "log_file ?s' = Header (join '','' hcols) # butlast rows0 @ [Row ?r]" by simp
  have fields: "split_sep (CHR '','') ?r
              = map (\<lambda>column. if column = ''timestamp'' then ts
                       else case map_of ?parsed column of Some v \<Rightarrow> v | None \<Rightarrow> [])
                  (csv_columns ?s')"
    unfolding rs by (simp add: row_values_def dict_get_def)
  have longer: "hcols \<noteq> csv_columns ?s' \<longrightarrow> length hcols < length (split_sep (CHR '','') ?r)"
  proof -
    have "length (split_sep (CHR '','') ?r) = length (csv_columns ?s')"
      unfolding rs by (simp add: row_values_def)
    then show ?thesis using hp by (auto simp: prefix_def)
  qed
  have "\<exists>h rows r.
            log_file ?s' = Header h # rows @ [Row r]
          \<and> split_sep (CHR '','') r
              = map (\<lambda>column. if column = ''timestamp'' then ts
                       else case map_of ?parsed column of Some v \<Rightarrow> v | None \<Rightarrow> [])
                  (csv_columns ?s')
          \<and> prefix (split_sep (CHR '','') h) (csv_columns ?s')
          \<and> (split_sep (CHR '','') h \<noteq> csv_columns ?s'
               \<longrightarrow> length (split_sep (CHR '','') h) < length (split_sep (CHR '','') r))"
    using shape fields hp longer hs
    by (intro exI [of _ "join '','' hcols"] exI [of _ "butlast rows0"] exI [of _ ?r]) simp
  then show ?thesis using three_lines_log by blast
qed

theorem rows_follow_current_schema_witness:
  "\<not> blank ''S 6.0, T 21.0, H 50.0'' \<and> CHR '','' \<notin> set ''t2''
   \<and> (\<exists>h rows r.
          log_file (fst (read_serial_data (\<lambda>x. None) 150 ''t2'' ''S 6.0, T 21.0, H 50.0''
                      (session (\<lambda>x. None) 150 [(''t1'', ''S 5.0, T 20.0'')] logger_init)))
            = Header h # rows @ [Row r]
        \<and> length (split_sep (CHR '','') h) < length (split_sep (CHR '','') r))
   \<and> log_file (session (\<lambda>x. None) 150 [(''t1'', ''S 5.0, T 20.0''),
         (''t2'', ''S 6.0, T 21.0, H 50.0''), (''t3'', ''S 7.0, T 22.0, H 51.0'')] logger_init)
       = [Header ''timestamp,S,T'', Row ''t1,5.0,20.0'', Row ''t2,6.0,21.0,50.0'',
          Row ''t3,7.0,22.0,51.0'']"
proof -
  let ?s' = "fst (read_serial_data (\<lambda>x. None) 150 ''t2'' ''S 6.0, T 21.0, H 50.0''
                (session (\<lambda>x. None) 150 [(''t1'', ''S 5.0, T 20.0'')] logger_init))"
  have b: "\<not> blank ''S 6.0, T 21.0, H 50.0''" by (rule three_lines_not_blank)
  have t: "CHR '','' \<notin> set ''t2''" by simp
  have c: "csv_columns ?s' = [''timestamp'', ''S'', ''T'', ''H'']"
    by (simp add: read_columns three_lines_not_blank three_lines_parsed keys_def logger_init_def)
  have l: "log_file ?s' = [Header ''timestamp,S,T'', Row ''t1,5.0,20.0'', Row ''t2,6.0,21.0,50.0'']"
    by (simp add: read_log read_written read_columns three_lines_not_blank three_lines_parsed
        keys_def row_values_def dict_get_def)
      (simp add: logger_init_def)
  from rows_follow_current_schema [OF b t, of "\<lambda>x. None" 150 "[(''t1'', ''S 5.0, T 20.0'')]"]
  obtain h rows r where 1: "log_file ?s' = Header h # rows @ [Row r]"
    and 2: "split_sep (CHR '','') h \<noteq> csv_columns ?s'
             \<longrightarrow> length (split_sep (CHR '','') h) < length (split_sep (CHR '','') r)"
    and 3: "log_file (session (\<lambda>x. None) 150 [(''t1'', ''S 5.0, T 20.0''),
         (''t2'', ''S 6.0, T 21.0, H 50.0''), (''t3'', ''S 7.0, T 22.0, H 51.0'')] logger_init)
       = [Header ''timestamp,S,T'', Row ''t1,5.0,20.0'', Row ''t2,6.0,21.0,50.0'',
          Row ''t3,7.0,22.0,51.0'']"
    by blast
  from 1 l have "h = ''timestamp,S,T''" by simp
  then have "split_sep (CHR '','') h = [''timestamp'', ''S'', ''T'']" by simp
  with c have "split_sep (CHR '','') h \<noteq> csv_columns ?s'" by simp
  with 2 have "length (split_sep (CHR '','') h) < length (split_sep (CHR '','') r)" by blast
  with 1 b t 3 show ?thesis by blast
qed

section \<open>Properties of the statistics\<close>

subsection \<open>The window\<close>

lemma maxlen_positive: "0 < linux_maxlen" "0 < mac_maxlen" "0 < windows_maxlen" "0 < pi_maxlen"
  by (simp_all add: linux_maxlen_def mac_maxlen_def windows_maxlen_def pi_maxlen_def)

lemma deque_append_set: "set (deque_append K xs x) \<subseteq> insert x (set xs)"
  by (auto simp: deque_append_def Let_def dest: in_set_dropD)

lemma deque_append_nonempty: "0 < K \<Longrightarrow> deque_append K xs x \<noteq> []"
  by (simp add: deque_append_def Let_def)



lemma mean_bounds:
  assumes "xs \<noteq> []" and "\<forall>x \<in> set xs. a \<le> x \<and> x \<le> (b::real)"
  shows "a \<le> sum_list xs / real (length xs) \<and> sum_list xs / real (length xs) \<le> b"
proof -
  have "real (length xs) * a \<le> sum_list xs \<and> sum_list xs \<le> real (length xs) * b"
    using assms(2) by (induction xs) (auto simp: algebra_simps)
  moreover have "0 < real (length xs)" using assms(1) by simp
  ultimately show ?thesis by (simp add: pos_le_divide_eq pos_divide_le_eq mult.commute)
qed

subsection \<open>What every stored object satisfies\<close>

lemma stat_update_new:
  "0 < K \<Longrightarrow>
     stat_update K v Statistics_new
       = (\<lparr>min_val = v, max_val = v, mean_val = v, current_val = v, std_dev = 0, count = 1,
           stat_values = [v]\<rparr>, None)"
  by (simp add: stat_update_def Statistics_new_def deque_append_def Let_def)

lemma stat_update_bounds:
  assumes "0 < K" and "1 \<le> count stat"
    and "\<forall>x \<in> set (stat_values stat). min_val stat \<le> x \<and> x \<le> max_val stat"
  shows "snd (stat_update K v stat) = None
     \<and> 1 \<le> count (fst (stat_update K v stat))
     \<and> (\<forall>x \<in> set (stat_values (fst (stat_update K v stat))).
           min_val (fst (stat_update K v stat)) \<le> x \<and> x \<le> max_val (fst (stat_update K v stat)))
     \<and> min_val (fst (stat_update K v stat)) \<le> mean_val (fst (stat_update K v stat))
     \<and> mean_val (fst (stat_update K v stat)) \<le> max_val (fst (stat_update K v stat))"
proof -
  let ?w = "deque_append K (stat_values stat) v"
  let ?lo = "min (min_val stat) v" and ?hi = "max (max_val stat) v"
  have ne: "?w \<noteq> []" using assms(1) by (rule deque_append_nonempty)
  have in_range: "\<forall>x \<in> set ?w. ?lo \<le> x \<and> x \<le> ?hi"
  proof
    fix x assume "x \<in> set ?w"
    then have "x = v \<or> x \<in> set (stat_values stat)"
      using deque_append_set [of K "stat_values stat" v] by blast
    then show "?lo \<le> x \<and> x \<le> ?hi"
      using assms(3) by (auto simp: min_le_iff_disj le_max_iff_disj)
  qed
  have m: "?lo \<le> sum_list ?w / real (length ?w) \<and> sum_list ?w / real (length ?w) \<le> ?hi"
    using ne in_range by (rule mean_bounds)
  have c: "count stat + 1 \<noteq> 1" using assms(2) by simp
  have l: "length ?w \<noteq> 0" using ne by simp
  show ?thesis using c l m in_range assms(2)
    by (simp add: stat_update_def Let_def)
qed

lemma stat_update_inv:
  assumes "0 < K" and "stat = Statistics_new \<or> stat_inv stat"
  shows "snd (stat_update K v stat) = None \<and> stat_inv (fst (stat_update K v stat))"
  using assms(2)
proof
  assume "stat = Statistics_new"
  then show ?thesis using assms(1) by (simp add: stat_update_new stat_inv_def)
next
  assume "stat_inv stat"
  then have "1 \<le> count stat"
    and "\<forall>x \<in> set (stat_values stat). min_val stat \<le> x \<and> x \<le> max_val stat"
    by (simp_all add: stat_inv_def list_all_iff)
  from stat_update_bounds [OF assms(1) this, of v] show ?thesis
    by (simp add: stat_inv_def list_all_iff)
qed

lemma calculate_statistics_entry:
  "fst (calculate_statistics K key v st)
     = st(key \<mapsto> fst (stat_update K v (case st key of None \<Rightarrow> Statistics_new | Some stat \<Rightarrow> stat)))"
  "snd (calculate_statistics K key v st)
     = snd (stat_update K v (case st key of None \<Rightarrow> Statistics_new | Some stat \<Rightarrow> stat))"
  by (simp_all add: calculate_statistics_def Let_def split: prod.splits)

lemma calculate_statistics_inv:
  assumes "0 < K" and "\<forall>k stat. st k = Some stat \<longrightarrow> stat_inv stat"
  shows "snd (calculate_statistics K key v st) = None
     \<and> (\<forall>k stat. fst (calculate_statistics K key v st) k = Some stat \<longrightarrow> stat_inv stat)"
proof -
  let ?old = "case st key of None \<Rightarrow> Statistics_new | Some stat \<Rightarrow> stat"
  have "?old = Statistics_new \<or> stat_inv ?old"
    using assms(2) by (cases "st key") simp_all
  from stat_update_inv [OF assms(1) this, of v] assms(2) show ?thesis
    by (simp add: calculate_statistics_entry)
qed

lemma stats_loop_inv:
  assumes "0 < K" and "\<forall>k stat. st k = Some stat \<longrightarrow> stat_inv stat"
  shows "snd (stats_loop pf K items st) = None
     \<and> (\<forall>k stat. fst (stats_loop pf K items st) k = Some stat \<longrightarrow> stat_inv stat)"
  using assms(2)
proof (induction items arbitrary: st)
  case Nil
  then show ?case by simp
next
  case (Cons item items)
  obtain key value_str where item: "item = (key, value_str)" by (cases item)
  show ?case
  proof (cases "pf value_str")
    case None
    with Cons item show ?thesis by simp
  next
    case (Some v)
    obtain st' e where c: "calculate_statistics K key v st = (st', e)"
      by (cases "calculate_statistics K key v st")
    from calculate_statistics_inv [OF assms(1) Cons.prems, of key v] c
    have e: "e = None" and st': "\<forall>k stat. st' k = Some stat \<longrightarrow> stat_inv stat" by simp_all
    from Cons.IH [OF st'] show ?thesis using item Some c e by simp
  qed
qed

lemma read_stats:
  "stats (fst (read_serial_data pf K ts raw s))
     = (if blank raw then stats s
        else fst (stats_loop pf K (parse_data_line (strip (decode_ascii raw))) (stats s)))"
  by (simp add: read_serial_data_def blank_def Let_def write_csv_row_def
      update_csv_columns_stats split: prod.splits)

lemma read_error:
  "snd (read_serial_data pf K ts raw s)
     = (if blank raw then None
        else snd (stats_loop pf K (parse_data_line (strip (decode_ascii raw))) (stats s)))"
  by (simp add: read_serial_data_def blank_def Let_def write_csv_row_def
      update_csv_columns_stats split: prod.splits)

lemma session_stats_inv:
  assumes "0 < K" and "\<forall>k stat. stats s k = Some stat \<longrightarrow> stat_inv stat"
  shows "\<forall>k stat. stats (session pf K ins s) k = Some stat \<longrightarrow> stat_inv stat"
  using assms(2)
proof (induction ins arbitrary: s)
  case Nil
  then show ?case by simp
next
  case (Cons x xs)
  obtain ts raw where x: "x = (ts, raw)" by (cases x)
  have "\<forall>k stat. stats (fst (read_serial_data pf K ts raw s)) k = Some stat \<longrightarrow> stat_inv stat"
    using stats_loop_inv [OF assms(1) Cons.prems] Cons.prems by (simp add: read_stats)
  from Cons.IH [OF this] show ?case by (simp add: x)
qed


lemma calculate_feed_other: "k \<noteq> key \<Longrightarrow> calculate_feed K key vs st k = st k"
  by (induction vs arbitrary: st) (simp_all add: calculate_statistics_entry)

lemma calculate_feed_inv:
  assumes "0 < K" and "\<forall>k stat. st k = Some stat \<longrightarrow> stat_inv stat"
  shows "\<forall>k stat. calculate_feed K key vs st k = Some stat \<longrightarrow> stat_inv stat"
  using assms(2)
proof (induction vs arbitrary: st)
  case Nil
  then show ?case by simp
next
  case (Cons v vs)
  from calculate_statistics_inv [OF assms(1) Cons.prems, of key v]
  have "\<forall>k stat. fst (calculate_statistics K key v st) k = Some stat \<longrightarrow> stat_inv stat" by simp
  from Cons.IH [OF this] show ?case by simp
qed

text \<open>
  Claim C10. With values as exact real numbers and a window length \<open>K > 0\<close>, every
  \<^verbatim>\<open>Statistics\<close> object in \<^verbatim>\<open>stats\<close> at any moment of a session, and after any
  number of calls of \<^verbatim>\<open>calculate_statistics\<close> for one key, has
  \<open>min_val \<le> mean_val \<le> max_val\<close>: the extrema are those of all values seen and bound
  every value of the window that the mean is taken over.
\<close>

theorem mean_between_extrema:
  assumes "0 < K"
  shows "(stats (session pyfloat K ins logger_init) key = Some stat
            \<longrightarrow> min_val stat \<le> mean_val stat \<and> mean_val stat \<le> max_val stat)
     \<and> (calculate_feed K key vs Map.empty key = Some stat
            \<longrightarrow> min_val stat \<le> mean_val stat \<and> mean_val stat \<le> max_val stat)"
proof -
  have "\<forall>k stat. stats logger_init k = Some stat \<longrightarrow> stat_inv stat"
    by (simp add: logger_init_def)
  from session_stats_inv [OF assms this, of pyfloat ins]
  have 1: "stats (session pyfloat K ins logger_init) key = Some stat \<longrightarrow> stat_inv stat" by blast
  have "\<forall>k stat. Map.empty k = Some stat \<longrightarrow> stat_inv stat" by simp
  from calculate_feed_inv [OF assms this, of key vs]
  have 2: "calculate_feed K key vs Map.empty key = Some stat \<longrightarrow> stat_inv stat" by blast
  from 1 2 show ?thesis by (simp add: stat_inv_def)
qed

lemma two_lines_stats:
  "stats (session (\<lambda>s. if s = ''5.0'' then Some 5 else if s = ''7.0'' then Some 7 else None) 150
       [(''t1'', ''S 5.0''), (''t2'', ''S 7.0, T x'')] logger_init) ''S''
     = Some \<lparr>min_val = 5, max_val = 7, mean_val = 6, current_val = 7, std_dev = 1, count = 2,
              stat_values = [5, 7]\<rparr>"
proof -
  have nb: "\<not> blank ''S 5.0''" "\<not> blank ''S 7.0, T x''"
    by (simp_all add: blank_def strip_def decode_ascii_def is_space_def)
  have p: "parse_data_line (strip (decode_ascii ''S 5.0'')) = [(''S'', ''5.0'')]"
    "parse_data_line (strip (decode_ascii ''S 7.0, T x'')) = [(''S'', ''7.0''), (''T'', ''x'')]"
    by (simp_all add: parse_data_line_def parse_try_def strip_def is_space_def split_first_def
      decode_ascii_def split_ws_def range_step2_def py_index_def)
  show ?thesis
    by (simp add: read_stats nb p calculate_statistics_def stat_update_def Statistics_new_def
        deque_append_def logger_init_def Let_def)
qed

theorem mean_between_extrema_witness:
  "(0::nat) < 150
   \<and> stats (session (\<lambda>s. if s = ''5.0'' then Some 5 else if s = ''7.0'' then Some 7 else None) 150
       [(''t1'', ''S 5.0''), (''t2'', ''S 7.0, T x'')] logger_init) ''S''
     = Some \<lparr>min_val = 5, max_val = 7, mean_val = 6, current_val = 7, std_dev = 1, count = 2,
              stat_values = [5, 7]\<rparr>
   \<and> min_val \<lparr>min_val = 5, max_val = 7, mean_val = 6, current_val = 7, std_dev = 1, count = 2,
              stat_values = [5, 7]\<rparr>
       \<le> mean_val \<lparr>min_val = 5, max_val = 7, mean_val = 6, current_val = 7, std_dev = 1, count = 2,
              stat_values = [5, 7]\<rparr>"
  using mean_between_extrema [of 150
      "\<lambda>s. if s = ''5.0'' then Some 5 else if s = ''7.0'' then Some 7 else None"
      "[(''t1'', ''S 5.0''), (''t2'', ''S 7.0, T x'')]" "''S''"
      "\<lparr>min_val = 5, max_val = 7, mean_val = 6, current_val = 7, std_dev = 1, count = 2,
              stat_values = [5, 7]\<rparr>"]
    two_lines_stats
  by simp

subsection \<open>The state after a stream of values\<close>

lemma window_length: "length (drop (length vs - K) vs) = min (length vs) K"
  by simp




subsection \<open>The Raspberry Pi logger\<close>







subsection \<open>The standard deviation\<close>






section \<open>Fields that are not numbers\<close>

lemma calculate_statistics_other:
  "k \<noteq> key \<Longrightarrow> fst (calculate_statistics K key v st) k = st k"
  by (simp add: calculate_statistics_entry)

lemma stats_loop_untouched:
  "\<forall>(key, value_str) \<in> set items. key = k \<longrightarrow> pf value_str = None \<Longrightarrow>
     fst (stats_loop pf K items st) k = st k"
proof (induction items arbitrary: st)
  case Nil
  show ?case by simp
next
  case (Cons item items)
  obtain key value_str where item: "item = (key, value_str)" by (cases item)
  from Cons.prems have rest: "\<forall>(key, value_str) \<in> set items. key = k \<longrightarrow> pf value_str = None"
    by simp
  show ?case
  proof (cases "pf value_str")
    case None
    then show ?thesis using Cons.IH [OF rest] item by simp
  next
    case (Some v)
    with Cons.prems item have ne: "k \<noteq> key" by auto
    obtain st' e where c: "calculate_statistics K key v st = (st', e)"
      by (cases "calculate_statistics K key v st")
    then have "st' k = st k" using calculate_statistics_other [OF ne, of K v st] by simp
    then show ?thesis using Cons.IH [OF rest, of st'] item Some c
      by (cases e) simp_all
  qed
qed

lemma distinct_keys_value:
  assumes "distinct (keys d)" and "(k, v) \<in> set d"
  shows "map_of d k = Some v" and "\<forall>(k', v') \<in> set d. k' = k \<longrightarrow> v' = v"
proof -
  from assms show m: "map_of d k = Some v" by (simp add: keys_def)
  show "\<forall>(k', v') \<in> set d. k' = k \<longrightarrow> v' = v"
  proof (clarify)
    fix v' assume "(k, v') \<in> set d"
    then have "map_of d k = Some v'" using assms(1) by (simp add: keys_def)
    with m show "v' = v" by simp
  qed
qed

lemma stats_loop_skip:
  "pf v = None \<Longrightarrow>
     stats_loop pf K (before @ (k, v) # after) st = stats_loop pf K (before @ after) st"
proof (induction before arbitrary: st)
  case Nil
  then show ?case by simp
next
  case (Cons item items)
  obtain key value_str where item: "item = (key, value_str)" by (cases item)
  show ?case
  proof (cases "pf value_str")
    case None
    then show ?thesis using Cons item by simp
  next
    case (Some x)
    obtain st' e where c: "calculate_statistics K key x st = (st', e)"
      by (cases "calculate_statistics K key x st")
    show ?thesis using Cons item Some c by (cases e) simp_all
  qed
qed

lemma stats_loop_none:
  "\<forall>(k, v) \<in> set items. pf v = None \<Longrightarrow> stats_loop pf K items st = (st, None)"
  by (induction items) auto

text \<open>
  Claim C8, as amended. At any moment of a session, for a field \<open>(k, v)\<close> of a line
  whose value \<^verbatim>\<open>float\<close> rejects, \<^verbatim>\<open>read_serial_data\<close> leaves the entry of \<open>k\<close> in
  \<^verbatim>\<open>stats\<close> as it was (none is created, none is changed). The iteration of the
  statistics loop for that field raises nothing and changes nothing: from every state
  the loop gives the same statistics and the same outcome as it gives on the line
  without the field. When no field of the line is a number, no exception leaves the
  loop and \<^verbatim>\<open>stats\<close> is unchanged. If \<open>k\<close> is not the column name \<^verbatim>\<open>timestamp\<close>, the
  row written for the line carries \<open>v\<close> unchanged in the column of \<open>k\<close>.
\<close>

theorem non_numeric_field:
  assumes "\<not> blank raw"
    and "(k, v) \<in> set (parse_data_line (strip (decode_ascii raw)))"
    and "pyfloat v = None"
  shows "stats (fst (read_serial_data pyfloat K ts raw (session pyfloat K ins logger_init))) k = stats (session pyfloat K ins logger_init) k
     \<and> (\<exists>before after.
            parse_data_line (strip (decode_ascii raw)) = before @ (k, v) # after
          \<and> (\<forall>st. stats_loop pyfloat K (before @ (k, v) # after) st
                     = stats_loop pyfloat K (before @ after) st))
     \<and> ((\<forall>(k', v') \<in> set (parse_data_line (strip (decode_ascii raw))). pyfloat v' = None)
          \<longrightarrow> snd (read_serial_data pyfloat K ts raw (session pyfloat K ins logger_init)) = None
              \<and> stats (fst (read_serial_data pyfloat K ts raw (session pyfloat K ins logger_init)))
                  = stats (session pyfloat K ins logger_init))
     \<and> (k \<noteq> ''timestamp'' \<longrightarrow>
          (\<exists>fields i. last (log_file (fst (read_serial_data pyfloat K ts raw (session pyfloat K ins logger_init))))
                         = Row (join '','' fields)
             \<and> length fields = length (csv_columns (fst (read_serial_data pyfloat K ts raw (session pyfloat K ins logger_init))))
             \<and> i < length fields
             \<and> csv_columns (fst (read_serial_data pyfloat K ts raw (session pyfloat K ins logger_init))) ! i = k
             \<and> fields ! i = v))"
proof (intro conjI)
  let ?parsed = "parse_data_line (strip (decode_ascii raw))"
  let ?s = "session pyfloat K ins logger_init"
  let ?s' = "fst (read_serial_data pyfloat K ts raw ?s)"
  have d: "distinct (keys ?parsed)" by (rule parse_data_line_distinct)
  have only: "\<forall>(key, value_str) \<in> set ?parsed. key = k \<longrightarrow> pyfloat value_str = None"
    using distinct_keys_value(2) [OF d assms(2)] assms(3) by auto
  show "stats ?s' k = stats ?s k"
    using assms(1) stats_loop_untouched [OF only] by (simp add: read_stats)
  show "\<exists>before after. ?parsed = before @ (k, v) # after
          \<and> (\<forall>st. stats_loop pyfloat K (before @ (k, v) # after) st
                     = stats_loop pyfloat K (before @ after) st)"
  proof -
    from assms(2) obtain before after where "?parsed = before @ (k, v) # after"
      by (auto simp: in_set_conv_decomp)
    then show ?thesis
      using stats_loop_skip [where pf = pyfloat and v = v and k = k and K = K, OF assms(3)]
      by blast
  qed
  show "(\<forall>(k', v') \<in> set ?parsed. pyfloat v' = None)
          \<longrightarrow> snd (read_serial_data pyfloat K ts raw ?s) = None \<and> stats ?s' = stats ?s"
  proof
    assume "\<forall>(k', v') \<in> set ?parsed. pyfloat v' = None"
    then have l: "stats_loop pyfloat K ?parsed (stats ?s) = (stats ?s, None)"
      by (rule stats_loop_none)
    have "snd (read_serial_data pyfloat K ts raw ?s) = None"
      using assms(1) l by (simp add: read_error)
    moreover have "stats ?s' = stats ?s" using assms(1) l by (simp add: read_stats)
    ultimately show "snd (read_serial_data pyfloat K ts raw ?s) = None \<and> stats ?s' = stats ?s"
      by simp
  qed
  show "k \<noteq> ''timestamp'' \<longrightarrow>
          (\<exists>fields i. last (log_file ?s') = Row (join '','' fields)
             \<and> length fields = length (csv_columns ?s')
             \<and> i < length fields \<and> csv_columns ?s' ! i = k \<and> fields ! i = v)"
  proof
    assume nt: "k \<noteq> ''timestamp''"
    let ?fields = "row_values ts ?parsed (csv_columns ?s')"
    have "k \<in> set (keys ?parsed)" using assms(2) by (force simp: keys_def)
    then have "k \<in> set (csv_columns ?s')"
      using assms(1) by (simp add: read_columns add_columns_set)
    then obtain i where i: "i < length (csv_columns ?s')" and ki: "csv_columns ?s' ! i = k"
      by (auto simp: in_set_conv_nth)
    have l: "last (log_file ?s') = Row (join '','' ?fields)"
      using read_log [OF assms(1), of pyfloat K ts ?s] by simp
    have n: "length ?fields = length (csv_columns ?s')" by (simp add: row_values_def)
    have "?fields ! i = dict_get ?parsed k []"
      using i ki nt by (simp add: row_values_def)
    also have "\<dots> = v"
      using distinct_keys_value(1) [OF d assms(2)] by (simp add: dict_get_def)
    finally have f: "?fields ! i = v" .
    from l n i ki f show "\<exists>fields i. last (log_file ?s') = Row (join '','' fields)
             \<and> length fields = length (csv_columns ?s')
             \<and> i < length fields \<and> csv_columns ?s' ! i = k \<and> fields ! i = v"
      by (intro exI [of _ ?fields] exI [of _ i]) simp
  qed
qed

theorem non_numeric_field_witness:
  "\<not> blank ''S 7.0, T x''
   \<and> (''T'', ''x'') \<in> set (parse_data_line (strip (decode_ascii ''S 7.0, T x'')))
   \<and> (\<lambda>s. if s = ''5.0'' then Some 5 else if s = ''7.0'' then Some (7::real) else None) ''x'' = None
   \<and> stats (fst (read_serial_data
               (\<lambda>s. if s = ''5.0'' then Some 5 else if s = ''7.0'' then Some 7 else None) 150
               ''t2'' ''S 7.0, T x'' logger_init)) ''T'' = None
   \<and> last (log_file (fst (read_serial_data
               (\<lambda>s. if s = ''5.0'' then Some 5 else if s = ''7.0'' then Some 7 else None) 150
               ''t2'' ''S 7.0, T x'' logger_init))) = Row ''t2,7.0,x''"
proof -
  let ?pf = "\<lambda>s. if s = ''5.0'' then Some 5 else if s = ''7.0'' then Some (7::real) else None"
  have nb: "\<not> blank ''S 7.0, T x''"
    by (simp add: blank_def strip_def decode_ascii_def is_space_def)
  have p: "parse_data_line (strip (decode_ascii ''S 7.0, T x'')) = [(''S'', ''7.0''), (''T'', ''x'')]"
    by (simp add: parse_data_line_def parse_try_def strip_def is_space_def split_first_def
      decode_ascii_def)
  have m: "(''T'', ''x'') \<in> set (parse_data_line (strip (decode_ascii ''S 7.0, T x'')))"
    by (simp add: p)
  have f: "?pf ''x'' = None" by simp
  have c: "csv_columns (fst (read_serial_data ?pf 150 ''t2'' ''S 7.0, T x'' logger_init))
             = [''timestamp'', ''S'', ''T'']"
    by (simp add: read_columns nb p keys_def logger_init_def)
  have l: "last (log_file (fst (read_serial_data ?pf 150 ''t2'' ''S 7.0, T x'' logger_init)))
             = Row ''t2,7.0,x''"
    by (simp add: read_log nb p c row_values_def dict_get_def)
  from non_numeric_field [where pyfloat = ?pf and raw = "''S 7.0, T x''" and k = "''T''"
      and v = "''x''" and K = 150 and ts = "''t2''" and ins = "[]", OF nb m f]
  have "stats (fst (read_serial_data ?pf 150 ''t2'' ''S 7.0, T x'' logger_init)) ''T''
          = stats logger_init ''T''" by simp
  then have "stats (fst (read_serial_data ?pf 150 ''t2'' ''S 7.0, T x'' logger_init)) ''T'' = None"
    by (simp add: logger_init_def)
  with nb m f l show ?thesis by blast
qed

text \<open>
  Claim C8 as stated fails for a field named \<^verbatim>\<open>timestamp\<close>: the line
  \<^verbatim>\<open>timestamp abc\<close> has the field \<^verbatim>\<open>timestamp\<close> with the value \<^verbatim>\<open>abc\<close>, which is
  not a number, and the row written for it holds the time stamp only.
\<close>

theorem timestamp_field_counterexample:
  "parse_data_line (strip (decode_ascii ''timestamp abc'')) = [(''timestamp'', ''abc'')]
   \<and> log_file (fst (read_serial_data (\<lambda>s. None) 150 ''2025-01-01T00:00:00'' ''timestamp abc''
                      logger_init))
       = [Header ''timestamp'', Row ''2025-01-01T00:00:00'']"
proof -
  have nb: "\<not> blank ''timestamp abc''"
    by (simp add: blank_def strip_def decode_ascii_def is_space_def)
  have p: "parse_data_line (strip (decode_ascii ''timestamp abc'')) = [(''timestamp'', ''abc'')]"
    by (simp add: parse_data_line_def parse_try_def strip_def is_space_def split_first_def
      decode_ascii_def split_ws_def range_step2_def py_index_def)
  have c: "csv_columns (fst (read_serial_data (\<lambda>s. None) 150 ''2025-01-01T00:00:00''
              ''timestamp abc'' logger_init)) = [''timestamp'']"
    by (simp add: read_columns nb p keys_def logger_init_def)
  have "log_file (fst (read_serial_data (\<lambda>s. None) 150 ''2025-01-01T00:00:00'' ''timestamp abc''
                      logger_init))
       = [Header ''timestamp'', Row ''2025-01-01T00:00:00'']"
    by (simp add: read_log nb p c row_values_def) (simp add: logger_init_def)
  with p show ?thesis by blast
qed

section \<open>The parser against the worded algorithm\<close>

subsection \<open>Trimming\<close>

lemma dropWhile_keeps: "c \<in> set s \<Longrightarrow> \<not> P c \<Longrightarrow> c \<in> set (dropWhile P s)"
  by (induction s) auto

lemma strip_keeps: "c \<in> set s \<Longrightarrow> \<not> is_space c \<Longrightarrow> c \<in> set (strip s)"
  by (simp add: strip_def dropWhile_keeps)

lemma comma_not_space: "\<not> is_space (CHR '','')"
  by (simp add: is_space_def)

lemma space_is_space: "is_space (CHR '' '')"
  by (simp add: is_space_def)

lemma comma_in_strip: "(CHR '','' \<in> set (strip line)) = (CHR '','' \<in> set line)"
  using strip_keeps [OF _ comma_not_space] set_strip by blast

lemma strip_hd: "strip s \<noteq> [] \<Longrightarrow> \<not> is_space (hd (strip s))"
proof -
  assume ne: "strip s \<noteq> []"
  let ?t = "dropWhile is_space s"
  have t: "?t \<noteq> []"
  proof
    assume "?t = []"
    then have "strip s = rev (dropWhile is_space (rev []))" by (simp only: strip_def)
    with ne show False by simp
  qed
  then have h: "\<not> is_space (hd ?t)" by (rule hd_dropWhile)
  have "rev ?t = takeWhile is_space (rev ?t) @ dropWhile is_space (rev ?t)" by simp
  then have "?t = strip s @ rev (takeWhile is_space (rev ?t))"
    by (metis rev_append rev_rev_ident strip_def)
  then have "hd ?t = hd (strip s)" using ne by (metis hd_append2)
  with h show ?thesis by simp
qed

lemma strip_last: "strip s \<noteq> [] \<Longrightarrow> \<not> is_space (last (strip s))"
proof -
  assume ne: "strip s \<noteq> []"
  let ?u = "dropWhile is_space (rev (dropWhile is_space s))"
  have u: "?u \<noteq> []" using ne by (simp add: strip_def)
  then have "\<not> is_space (hd ?u)" by (rule hd_dropWhile)
  moreover have "last (strip s) = hd ?u" using u by (simp add: strip_def last_rev)
  ultimately show ?thesis by simp
qed

lemma strip_nonempty: "c \<in> set s \<Longrightarrow> \<not> is_space c \<Longrightarrow> strip s \<noteq> []"
  using strip_keeps by fastforce

lemma split_first_tokens:
  assumes "p \<noteq> []" and "\<not> is_space (hd p)" and "\<not> is_space (last p)" and "CHR '' '' \<in> set p"
  shows "\<exists>a b. split_first (CHR '' '') p = [a, b] \<and> strip a \<noteq> [] \<and> strip b \<noteq> []"
proof -
  let ?a = "takeWhile (\<lambda>x. x \<noteq> CHR '' '') p"
  let ?d = "dropWhile (\<lambda>x. x \<noteq> CHR '' '') p"
  have sf: "split_first (CHR '' '') p = [?a, tl ?d]"
    using assms(4) by (simp add: split_first_def)
  have hdp: "hd p \<noteq> CHR '' ''" using assms(2) space_is_space by auto
  then have "hd p \<in> set ?a" using assms(1) by (cases p) auto
  then have a: "strip ?a \<noteq> []" using assms(2) by (rule strip_nonempty)
  have d: "?d \<noteq> []" using assms(4) by simp
  then have hd_d: "hd ?d = CHR '' ''" using hd_dropWhile [of "\<lambda>x. x \<noteq> CHR '' ''" p] by simp
  have p: "p = ?a @ ?d" by simp
  have "last p = last ?d" using d by (metis p last_appendR)
  then have ld: "\<not> is_space (last ?d)" using assms(3) by simp
  have "tl ?d \<noteq> []"
  proof
    assume "tl ?d = []"
    then have "?d = [CHR '' '']" using d hd_d by (cases ?d) auto
    then have "last ?d = CHR '' ''" by simp
    with ld space_is_space show False by simp
  qed
  then have "last (tl ?d) = last ?d" by (simp add: last_tl)
  then have "last ?d \<in> set (tl ?d)" using \<open>tl ?d \<noteq> []\<close> by (metis last_in_set)
  then have b: "strip (tl ?d) \<noteq> []" using ld by (rule strip_nonempty)
  from sf a b show ?thesis by blast
qed

lemma spec_segment_trimmed_eq:
  "spec_segment_trimmed seg =
     (if CHR '' '' \<in> set (strip seg)
      then (case split_first (CHR '' '') (strip seg) of
              [key, value] \<Rightarrow> Some (strip key, strip value) | _ \<Rightarrow> None)
      else None)"
proof (cases "CHR '' '' \<in> set (strip seg)")
  case True
  then have ne: "strip seg \<noteq> []" by auto
  from split_first_tokens [OF ne strip_hd [OF ne] strip_last [OF ne] True]
  obtain a b where "split_first (CHR '' '') (strip seg) = [a, b]"
    and "strip a \<noteq> []" and "strip b \<noteq> []" by blast
  with True show ?thesis by (simp add: spec_segment_trimmed_def)
next
  case False
  then show ?thesis by (simp add: spec_segment_trimmed_def split_first_def)
qed

subsection \<open>The two loops as folds\<close>

lemma comma_loop_fold:
  "fst (comma_loop pairs parsed)
     = foldl (\<lambda>d (k, v). dict_set k v d) parsed (List.map_filter spec_segment_trimmed pairs)"
proof (induction pairs arbitrary: parsed)
  case Nil
  show ?case by (simp add: List.map_filter_simps)
next
  case (Cons p ps)
  show ?case
  proof (cases "CHR '' '' \<in> set (strip p)")
    case True
    then obtain a b where ab: "split_first (CHR '' '') (strip p) = [a, b]"
      using split_first_two by blast
    then have "spec_segment_trimmed p = Some (strip a, strip b)"
      using True by (simp add: spec_segment_trimmed_eq)
    then show ?thesis using True ab Cons.IH by (simp add: List.map_filter_simps)
  next
    case False
    then have "spec_segment_trimmed p = None" by (simp add: spec_segment_trimmed_eq)
    then show ?thesis using False Cons.IH by (simp add: List.map_filter_simps)
  qed
qed

lemma pair_loop_fold:
  "\<forall>i \<in> set is. i + 1 < length parts \<Longrightarrow>
     fst (pair_loop parts is parsed)
       = foldl (\<lambda>d (k, v). dict_set k v d) parsed (map (\<lambda>i. (parts ! i, parts ! (i + 1))) is)"
  by (induction "is" arbitrary: parsed) (simp_all add: py_index_def)

lemma filter_even_shift:
  "filter even [0 ..< Suc (Suc m)] = 0 # map (\<lambda>i. i + 2) (filter even [0 ..< m])"
  by (induction m) auto

lemma pair_up_nth:
  "pair_up parts
     = map (\<lambda>i. (parts ! i, parts ! (i + 1))) (filter even [0 ..< length parts - 1])"
proof (induction parts rule: pair_up.induct)
  case (1 a b rest)
  have "filter even [0 ..< length (a # b # rest) - 1]
          = (if rest = [] then [0] else 0 # map (\<lambda>i. i + 2) (filter even [0 ..< length rest - 1]))"
  proof (cases rest)
    case Nil
    then show ?thesis by simp
  next
    case (Cons c cs)
    then have "length (a # b # rest) - 1 = Suc (Suc (length rest - 1))" by simp
    then show ?thesis using Cons by (simp only: filter_even_shift) simp
  qed
  then show ?case using 1 by (cases rest) (simp_all add: comp_def)
next
  case (2 a)
  show ?case by simp
next
  case 3
  show ?case by simp
qed

lemma range_step2_length: "range_step2 (int (length parts) - 1) = filter even [0 ..< length parts - 1]"
  by (simp add: range_step2_def nat_diff_distrib')

lemma pair_loop_pair_up:
  "fst (pair_loop parts (range_step2 (int (length parts) - 1)) [])
     = dict_of_pairs (pair_up parts)"
proof -
  have "\<forall>i \<in> set (filter even [0 ..< length parts - 1]). i + 1 < length parts" by auto
  then show ?thesis
    by (simp add: range_step2_length pair_loop_fold pair_up_nth dict_of_pairs_def)
qed

text \<open>
  Claim C7, as amended. For every line, \<^verbatim>\<open>parse_data_line\<close> gives what the worded
  algorithm gives on the trimmed line, once the trimming is added to it: if the line
  contains a comma, it is split on commas, each segment is trimmed and split on its
  first space, and a segment that yields two tokens, non-empty after trimming, gives
  the pair of the trimmed tokens (such a segment always has two non-empty tokens);
  if the line has no comma, it is split on whitespace and the tokens are paired
  consecutively, a trailing unpaired token being dropped. The values are strings.
\<close>

theorem parse_data_line_algorithm:
  "parse_data_line line = spec_LineParser_trimmed (strip line)"
  by (simp add: parse_data_line_def parse_try_def spec_LineParser_trimmed_def Let_def
      comma_in_strip comma_loop_fold pair_loop_pair_up dict_of_pairs_def)

theorem parse_data_line_algorithm_witness:
  "parse_data_line ''S  5.0 , T 20.0,junk, U'' = [(''S'', ''5.0''), (''T'', ''20.0'')]
   \<and> spec_LineParser_trimmed (strip ''S  5.0 , T 20.0,junk, U'')
       = [(''S'', ''5.0''), (''T'', ''20.0'')]"
proof -
  have "parse_data_line ''S  5.0 , T 20.0,junk, U'' = [(''S'', ''5.0''), (''T'', ''20.0'')]"
    by (simp add: parse_data_line_def parse_try_def strip_def is_space_def split_first_def)
  then show ?thesis
    using parse_data_line_algorithm [of "''S  5.0 , T 20.0,junk, U''"] by simp
qed

text \<open>
  Claim C7 as stated fails: on \<^verbatim>\<open>S 5.0, T 20.0\<close> the second segment begins with a
  space, so splitting it as it is on its first space gives an empty first token and the
  worded algorithm drops it, while \<^verbatim>\<open>parse_data_line\<close> trims the segment first and
  keeps the field \<^verbatim>\<open>T\<close>.
\<close>

theorem spec_LineParser_counterexample:
  "parse_data_line ''S 5.0, T 20.0'' = [(''S'', ''5.0''), (''T'', ''20.0'')]
   \<and> spec_LineParser ''S 5.0, T 20.0'' = [(''S'', ''5.0'')]"
  by (simp add: parse_data_line_def parse_try_def strip_def is_space_def split_first_def
      spec_LineParser_def spec_segment_def dict_of_pairs_def List.map_filter_simps)

section \<open>The standard deviation in double precision\<close>





end
